theory Spec2Isabelle
  imports Main
begin

section \<open>The Batcher-banyan bitonic sorting network of \<^verbatim>\<open>Validate/banyan.cu\<close>\<close>

text \<open>
  Modelling decisions, once for the whole development.

  \<^item> Keys are \<^verbatim>\<open>float\<close> in the source. The network only compares them, so a key is an
    element of an arbitrary linear order \<open>'a::linorder\<close> (floats without NaN, where
    \<open><\<close> and \<open>>=\<close> are complementary).
  \<^item> Device buffers are stores \<open>nat \<Rightarrow> 'a\<close> from cell index to content. The array that
    a pointer refers to is the cells \<open>0 ..< N\<close> of its store. The store has cells past the
    array only so that an access past the end shows: it is a read or a change of a cell
    whose index is not below \<open>N\<close>. In the source such an access is outside the allocated
    array; \<open>cas_accesses\<close> and \<open>past_the_end\<close> name these cells.
  \<^item> A kernel launch is a parallel loop over an index space. Each lane of the source runs
    a grid-stride loop; the lanes of one launch together visit every index of the loop
    bound exactly once and touch pairwise disjoint cells, so the launch is the sequential
    \<open>fold\<close> of the loop body over the index space \<open>[0..<bound]\<close>. The kernels below say
    what a launch does when it runs; whether the device accepts its configuration is
    not part of them: \<open>compBlockNum\<close> and \<open>max_threads_per_block\<close> give the block size
    the compare launch asks for and the limit.
  \<^item> Loop counters and indices are natural numbers. The single place where the source
    computes with a possibly negative intermediate (\<^verbatim>\<open>size/2 - 1\<close> in the butterfly
    kernel) is computed over \<open>int\<close> and converted back, as the conversion to
    \<^verbatim>\<open>unsigned long\<close> does for the sizes an \<^verbatim>\<open>int\<close> can hold.
    The host helper \<^verbatim>\<open>getN\<close> computes on \<^verbatim>\<open>int\<close>, where doubling can leave the
    32-bit range: there the wrap-around is written out. In \<^verbatim>\<open>benyan\<close> and the kernels
    every counter, size and index fits its C type as long as \<open>N = 2^n\<close> and \<open>n \<le> 30\<close>;
    the model does not bound them, so it says nothing about the source beyond that
    (where \<^verbatim>\<open>int size\<close> wraps, or \<^verbatim>\<open>N/div\<close> divides by 0).
\<close>

subsection \<open>Host helper \<^verbatim>\<open>getN\<close>\<close>

definition wrap32 :: "int \<Rightarrow> int" where
  "wrap32 i = (i + 2 ^ 31) mod 2 ^ 32 - 2 ^ 31"

text \<open>
  \<^verbatim>\<open>int N = 2; while (N < size) { N = N*2; } return N;\<close> on 32-bit two's complement
  \<^verbatim>\<open>int\<close>. The loop need not end, so the result is optional: \<open>None\<close> is "does not return".
\<close>

partial_function (option) getN_loop :: "int \<Rightarrow> int \<Rightarrow> int option" where
  "getN_loop sz N = (if N < sz then getN_loop sz (wrap32 (N * 2)) else Some N)"

definition getN :: "int \<Rightarrow> int option" where
  "getN sz = getN_loop sz 2"

subsection \<open>Index computations of the permutation kernels\<close>

text \<open>
  \<^verbatim>\<open>shuffleN\<close>, lines 28-33: the cell \<^verbatim>\<open>ind_out\<close> that output position \<^verbatim>\<open>ind_in\<close> reads
  (line 34 is \<^verbatim>\<open>out[ind_in_base+ind_in]=in[ind_in_base+ind_out]\<close>).
\<close>

definition shuffleN_ind_out :: "nat \<Rightarrow> nat \<Rightarrow> nat" where
  "shuffleN_ind_out sz ind_in =
     (if ind_in mod 2 = 0 then ind_in div 2
      else (sz div 2) + (ind_in div 2))"

text \<open>\<^verbatim>\<open>butterflyN\<close>, lines 54-65.\<close>

definition butterflyN_ind_out :: "nat \<Rightarrow> nat \<Rightarrow> nat" where
  "butterflyN_ind_out sz ind_in =
     (if ind_in < sz div 2 then
        (if ind_in mod 2 = 0 then ind_in
         else nat (int ind_in + (int sz div 2 - 1)))
      else
        (if ind_in mod 2 = 0 then nat (int ind_in - (int sz div 2 - 1))
         else ind_in))"

subsection \<open>Device state and kernels\<close>

record 'a dev =
  buf_x :: "nat \<Rightarrow> 'a"
  buf_y :: "nat \<Rightarrow> 'a"
  comparators :: "nat \<Rightarrow> bool"

text \<open>
  One block of a permutation kernel: the scatter loop into the ping-pong buffer, the
  barrier, the copy-back loop. \<open>ind_out\<close> is the kernel's index computation.
\<close>

definition scatter_body :: "(nat \<Rightarrow> nat) \<Rightarrow> nat \<Rightarrow> nat \<Rightarrow> 'a dev \<Rightarrow> 'a dev" where
  "scatter_body ind_out ind_in_base ind_in d =
     d\<lparr>buf_y := (buf_y d)(ind_in_base + ind_in := buf_x d (ind_in_base + ind_out ind_in))\<rparr>"

definition copy_back_body :: "nat \<Rightarrow> nat \<Rightarrow> 'a dev \<Rightarrow> 'a dev" where
  "copy_back_body ind_in_base ind_in d =
     d\<lparr>buf_x := (buf_x d)(ind_in_base + ind_in := buf_y d (ind_in_base + ind_in))\<rparr>"

definition permute_block :: "(nat \<Rightarrow> nat) \<Rightarrow> nat \<Rightarrow> nat \<Rightarrow> 'a dev \<Rightarrow> 'a dev" where
  "permute_block ind_out sz blockIdx d =
     (let ind_in_base = blockIdx * sz;
          d1 = fold (scatter_body ind_out ind_in_base) [0..<sz] d
      in fold (copy_back_body ind_in_base) [0..<sz] d1)"

text \<open>\<^verbatim>\<open>shuffleN<<<grid, threads>>>(x, y, size, N)\<close>: one block per chunk of \<open>sz\<close> cells.\<close>

definition shuffleN :: "nat \<Rightarrow> nat \<Rightarrow> 'a dev \<Rightarrow> 'a dev" where
  "shuffleN grid sz d = fold (permute_block (shuffleN_ind_out sz) sz) [0..<grid] d"

definition butterflyN :: "nat \<Rightarrow> nat \<Rightarrow> 'a dev \<Rightarrow> 'a dev" where
  "butterflyN grid sz d = fold (permute_block (butterflyN_ind_out sz) sz) [0..<grid] d"

text \<open>
  \<^verbatim>\<open>compareAndSwap\<close>. Line 87: the direction of comparator \<open>comp_ind\<close> is bit \<open>level\<close>
  of its index.
\<close>

definition comp_bool_of :: "nat \<Rightarrow> nat \<Rightarrow> bool" where
  "comp_bool_of level comp_ind = (and comp_ind (push_bit level 1) \<noteq> 0)"

text \<open>Lines 91-92: the two cells comparator \<open>comp_ind\<close> works on.\<close>

definition cas_operands :: "nat \<Rightarrow> nat \<times> nat" where
  "cas_operands comp_ind = (2 * comp_ind, 2 * comp_ind + 1)"

text \<open>Lines 94-96 on the two key values: the compare-exchange primitive.\<close>

definition compare_exchange :: "bool \<Rightarrow> 'a::linorder \<Rightarrow> 'a \<Rightarrow> 'a \<times> 'a" where
  "compare_exchange comp_bool a b =
     (if (comp_bool \<and> a < b) \<or> (\<not> comp_bool \<and> a \<ge> b) then (b, a) else (a, b))"

text \<open>Lines 87-96: the loop body for one comparator position.\<close>

definition cas_body :: "nat \<Rightarrow> nat \<Rightarrow> ('a::linorder) dev \<Rightarrow> 'a dev" where
  "cas_body level comp_ind d =
     (let comp_bool = comp_bool_of level comp_ind;
          d1 = d\<lparr>comparators := (comparators d)(comp_ind := comp_bool)\<rparr>;
          (data0, data1) = cas_operands comp_ind;
          (r0, r1) = compare_exchange comp_bool (buf_x d1 data0) (buf_x d1 data1)
      in d1\<lparr>buf_x := (buf_x d1)(data0 := r0, data1 := r1)\<rparr>)"

text \<open>Lines 81-83: the comparator positions one launch visits, \<^verbatim>\<open>comp_ind < N\<close>.\<close>

definition cas_positions :: "nat \<Rightarrow> nat list" where
  "cas_positions N = [0..<N]"

definition compareAndSwap :: "nat \<Rightarrow> nat \<Rightarrow> ('a::linorder) dev \<Rightarrow> 'a dev" where
  "compareAndSwap level N d = fold (cas_body level) (cas_positions N) d"

text \<open>
  The cells of \<^verbatim>\<open>in\<close> that one launch reads and writes, in the order of the comparators,
  and those among a list of cells that lie past an array of \<open>len\<close> elements.
\<close>

definition cas_accesses :: "nat \<Rightarrow> nat list" where
  "cas_accesses N =
     concat (map (\<lambda>comp_ind. [fst (cas_operands comp_ind), snd (cas_operands comp_ind)])
                 (cas_positions N))"

definition past_the_end :: "nat \<Rightarrow> nat list \<Rightarrow> nat list" where
  "past_the_end len cells = filter (\<lambda>i. \<not> i < len) cells"

text \<open>
  Lines 109-110 and the launches of lines 116 and 127,
  \<^verbatim>\<open>compareAndSwap<<<compThreadNum,compBlockNum>>>\<close>: the first launch parameter is the
  number of blocks and the second the number of threads of a block, so a block of the
  compare launch has \<open>compBlockNum N\<close> threads. The permutation launches are
  \<^verbatim>\<open><<<div,threadNum>>>\<close> with \<^verbatim>\<open>threadNum = min((long)1024, N/div)\<close>: 1024 is the
  limit on the threads of a block that the source itself keeps to (lines 23, 50, 120).
\<close>

definition compThreadNum :: nat where
  "compThreadNum = 512"

definition compBlockNum :: "nat \<Rightarrow> nat" where
  "compBlockNum N = min 65535 ((N + compThreadNum - 1) div compThreadNum)"

definition max_threads_per_block :: nat where
  "max_threads_per_block = 1024"

text \<open>
  \<^verbatim>\<open>compare_and_switch\<close> of the staging fragment (lines 391-406), on the two values its
  pointer operands refer to. \<^verbatim>\<open>UP\<close> is 0 and \<^verbatim>\<open>DOWN\<close> is 1.
\<close>

definition UP :: int where "UP = 0"
definition DOWN :: int where "DOWN = 1"

definition compare_and_switch :: "int \<Rightarrow> 'a::linorder \<Rightarrow> 'a \<Rightarrow> 'a \<times> 'a" where
  "compare_and_switch direction in0 in1 =
     (let (a, b) = (if direction = UP then (if in1 > in0 then (in1, in0) else (in0, in1))
                    else (in0, in1))
      in if direction = DOWN then (if a > b then (b, a) else (a, b)) else (a, b))"

subsection \<open>The driver \<^verbatim>\<open>benyan\<close>\<close>

text \<open>
  The four kernel launch sites of the loop body: the compare-exchange of phase (a)
  (line 116), the shuffle (line 122), the second compare-exchange (line 127) and the
  butterfly (line 130). A launch is recorded with the values of \<^verbatim>\<open>stage\<close> and
  \<^verbatim>\<open>substage\<close> at the time of the launch and with its arguments.
\<close>

datatype kernel =
    CmpA nat
  | Shuf nat nat
  | CmpB nat
  | Bfly nat nat

record launch =
  l_stage :: nat
  l_substage :: nat
  l_kernel :: kernel

record 'a bstate =
  st_mem :: "'a dev"
  st_level :: nat
  st_launches :: "launch list"

definition launch_kernel ::
  "nat \<Rightarrow> nat \<Rightarrow> kernel \<Rightarrow> ('a dev \<Rightarrow> 'a dev) \<Rightarrow> 'a bstate \<Rightarrow> 'a bstate" where
  "launch_kernel stage substage k run s =
     s\<lparr>st_mem := run (st_mem s),
       st_launches := st_launches s @ [\<lparr>l_stage = stage, l_substage = substage, l_kernel = k\<rparr>]\<rparr>"

text \<open>
  Lines 120-133, the branch \<^verbatim>\<open>stage < n-1\<close> of one iteration of the inner loop, up to
  the increment of \<^verbatim>\<open>substage\<close>. \<open>dv\<close> is the source's \<^verbatim>\<open>div\<close>;
  \<^verbatim>\<open>threadNum\<close> only sizes the blocks of the two permutation launches. \<open>N div dv\<close> is
  the source's \<^verbatim>\<open>N/div\<close>, which the kernels take as \<^verbatim>\<open>int size\<close>: for \<open>N = 2^n\<close> with
  \<open>n \<le> 30\<close> the divisor is at least 1 and the quotient fits; elsewhere the source
  divides by 0 or narrows the quotient, and this definition does not describe it.
\<close>

definition permute_phase ::
  "nat \<Rightarrow> nat \<Rightarrow> nat \<Rightarrow> nat \<Rightarrow> ('a::linorder) bstate \<Rightarrow> 'a bstate" where
  "permute_phase N dv stage substage s1 =
     (let threadNum = min 1024 (N div dv);
          s2 = (if substage = 0
                then (launch_kernel stage substage (Shuf dv (N div dv)) (shuffleN dv (N div dv)) s1)
                       \<lparr>st_level := st_level s1 + 1\<rparr>
                else s1);
          s3 = launch_kernel stage substage (CmpB (st_level s2)) (compareAndSwap (st_level s2) N) s2
      in launch_kernel stage substage (Bfly dv (N div dv)) (butterflyN dv (N div dv)) s3)"

text \<open>
  Lines 113-138, the inner loop \<^verbatim>\<open>while (substage <= stage)\<close> with its \<^verbatim>\<open>break\<close>.
  \<^verbatim>\<open>div = N/(pow(2,2+stage-substage))\<close> is a division of doubles truncated to
  \<^verbatim>\<open>int\<close>. The test \<^verbatim>\<open>stage < n-1\<close> is only reached with \<^verbatim>\<open>stage < n\<close>, so the
  unsigned \<^verbatim>\<open>n-1\<close> does not wrap.
\<close>

function benyan_substages ::
  "nat \<Rightarrow> nat \<Rightarrow> nat \<Rightarrow> nat \<Rightarrow> ('a::linorder) bstate \<Rightarrow> 'a bstate" where
  "benyan_substages N n stage substage s =
     (if substage \<le> stage then
        (let dv = N div 2 ^ (2 + stage - substage);
             s1 = launch_kernel stage substage (CmpA (st_level s)) (compareAndSwap (st_level s) N) s
         in if stage < n - 1
            then benyan_substages N n stage (substage + 1) (permute_phase N dv stage substage s1)
            else s1)
      else s)"
  by pat_completeness auto
termination
  by (relation "measure (\<lambda>(N, n, stage, substage, s). Suc stage - substage)") auto

text \<open>Lines 112-141, the outer loop; \<^verbatim>\<open>substage\<close> restarts at 0 in every stage.\<close>

function benyan_stages ::
  "nat \<Rightarrow> nat \<Rightarrow> nat \<Rightarrow> ('a::linorder) bstate \<Rightarrow> 'a bstate" where
  "benyan_stages N n stage s =
     (if stage < n then benyan_stages N n (stage + 1) (benyan_substages N n stage 0 s)
      else s)"
  by pat_completeness auto
termination
  by (relation "measure (\<lambda>(N, n, stage, s). n - stage)") auto

text \<open>
  \<^verbatim>\<open>benyan(x, y, comparators, N, n)\<close>: the three buffers are the device state \<open>d\<close>;
  \<^verbatim>\<open>level\<close>, \<^verbatim>\<open>stage\<close> and \<^verbatim>\<open>substage\<close> start at 0.
\<close>

definition benyan :: "('a::linorder) dev \<Rightarrow> nat \<Rightarrow> nat \<Rightarrow> 'a bstate" where
  "benyan d N n = benyan_stages N n 0 \<lparr>st_mem = d, st_level = 0, st_launches = []\<rparr>"

text \<open>The key array after the sort, as the list of its \<open>N\<close> cells.\<close>

definition keys_of :: "nat \<Rightarrow> 'a dev \<Rightarrow> 'a list" where
  "keys_of N d = map (buf_x d) [0..<N]"

text \<open>A device state whose key array holds the given list (all other cells hold \<open>pad\<close>).\<close>

definition dev_of :: "'a \<Rightarrow> 'a list \<Rightarrow> 'a dev" where
  "dev_of pad ks =
     \<lparr>buf_x = (\<lambda>i. if i < length ks then ks ! i else pad),
      buf_y = (\<lambda>i. pad),
      comparators = (\<lambda>i. False)\<rparr>"

text \<open>The \<^verbatim>\<open>(stage, substage)\<close> pairs of the phase-(a) compare-exchange launches, in order.\<close>

fun is_CmpA :: "kernel \<Rightarrow> bool" where
  "is_CmpA (CmpA lv) = True"
| "is_CmpA k = False"


definition cmpA_sites :: "launch list \<Rightarrow> (nat \<times> nat) list" where
  "cmpA_sites ls = map (\<lambda>l. (l_stage l, l_substage l)) (filter (\<lambda>l. is_CmpA (l_kernel l)) ls)"

subsection \<open>The validation harness: one sort of \<^verbatim>\<open>main\<close>\<close>

text \<open>
  Lines 198-285, the body of the benchmark loop for one \<^verbatim>\<open>N\<close> and \<^verbatim>\<open>n\<close>, as the
  sequence of calls it makes. \<^verbatim>\<open>exit(1)\<close> ends the program, so nothing follows it.
  \<^verbatim>\<open>IsPowerOfTwo\<close> comes from \<^verbatim>\<open>helper_nov.h\<close>, which is not part of the sources at
  hand; it is a parameter. (The message is printed with a trailing newline.)
\<close>

datatype hostcall =
    CudaEventCreate
  | FprintfStderr string
  | Exit int
  | Printf
  | Fflush
  | NewHostArray nat
  | CudaMallocManaged nat
  | Initialize nat
  | CudaMemcpy nat
  | CudaDeviceSynchronize
  | CudaEventRecord
  | Banyan nat nat
  | CudaEventSynchronize
  | CudaEventElapsedTime
  | CompareResults nat
  | AssertEquals
  | DeleteHostArray
  | CudaFree
  | CudaEventDestroy

definition sort_once :: "(nat \<Rightarrow> bool) \<Rightarrow> nat \<Rightarrow> nat \<Rightarrow> hostcall list" where
  "sort_once IsPowerOfTwo N n =
     [CudaEventCreate, CudaEventCreate] @
     (if \<not> IsPowerOfTwo N
      then [FprintfStderr ''Numberof items is not a power of two'', Exit 1]
      else [Printf, Printf, Fflush,
            NewHostArray N, NewHostArray N,
            CudaMallocManaged N,
            Initialize N, Printf,
            CudaMemcpy N,
            CudaDeviceSynchronize, CudaEventRecord,
            Banyan N n,
            CudaEventRecord, CudaEventSynchronize, CudaEventElapsedTime, Printf,
            CudaMemcpy N,
            CompareResults N, Printf, AssertEquals,
            Printf,
            DeleteHostArray, DeleteHostArray, CudaFree,
            CudaEventDestroy, CudaEventDestroy])"

fun is_device_work :: "hostcall \<Rightarrow> bool" where
  "is_device_work (CudaMallocManaged k) = True"
| "is_device_work (Banyan N n) = True"
| "is_device_work (CudaMemcpy k) = True"
| "is_device_work c = False"

text \<open>The phase-(a) launch sites of one stage: every substage below the last stage, substage 0 alone in the last.\<close>

definition stage_sites :: "nat \<Rightarrow> nat \<Rightarrow> (nat \<times> nat) list" where
  "stage_sites n stage = map (Pair stage) (if stage < n - 1 then [0..<Suc stage] else [0])"

subsection \<open>Notions used to state and prove sortedness\<close>

text \<open>
  What one launch does to the key array, as a function on key arrays: a launch of
  \<^verbatim>\<open>compareAndSwap\<close> over the comparators \<open>0 ..< N\<close> (cells \<open>0 ..< 2N\<close>), and a launch
  of a permutation kernel over \<open>g\<close> chunks of \<open>sz\<close> cells with index computation \<open>f\<close>.
  Lemmas \<open>buf_x_compareAndSwap\<close>, \<open>buf_x_shuffleN\<close> and \<open>buf_x_butterflyN\<close> below show
  that the kernels compute exactly these.
\<close>

definition cas_arr :: "nat \<Rightarrow> nat \<Rightarrow> (nat \<Rightarrow> 'a::linorder) \<Rightarrow> nat \<Rightarrow> 'a" where
  "cas_arr lv N a i =
     (if i < 2 * N then
        (if even i then fst (compare_exchange (comp_bool_of lv (i div 2)) (a i) (a (i + 1)))
         else snd (compare_exchange (comp_bool_of lv (i div 2)) (a (i - 1)) (a i)))
      else a i)"

definition perm_arr :: "(nat \<Rightarrow> nat) \<Rightarrow> nat \<Rightarrow> nat \<Rightarrow> (nat \<Rightarrow> 'a) \<Rightarrow> nat \<Rightarrow> 'a" where
  "perm_arr f g sz a i = (if i < g * sz then a ((i div sz) * sz + f (i mod sz)) else a i)"

text \<open>
  A 0-1 sequence of length \<open>K\<close> is bitonic when its ones (\<open>t\<close> true) or its zeros
  (\<open>t\<close> false) are exactly the positions \<open>p ..< q\<close>.
\<close>

definition form01 :: "nat \<Rightarrow> (nat \<Rightarrow> bool) \<Rightarrow> bool" where
  "form01 K b = (\<exists>p q t. p \<le> q \<and> q \<le> K \<and> (\<forall>i<K. b i = (t = (p \<le> i \<and> i < q))))"

text \<open>
  \<open>ush K j\<close> is the position at which a chunk of size \<open>K\<close> that has gone through the
  shuffle holds element \<open>j\<close> of the chunk before the shuffle; \<open>view K z c\<close> reads chunk
  \<open>c\<close> of the array \<open>z\<close> in that order.
\<close>

definition ush :: "nat \<Rightarrow> nat \<Rightarrow> nat" where
  "ush K j = (if j < K div 2 then 2 * j else 2 * (j - K div 2) + 1)"

definition view :: "nat \<Rightarrow> (nat \<Rightarrow> 'a) \<Rightarrow> nat \<Rightarrow> nat \<Rightarrow> 'a" where
  "view K z c j = z (c * K + ush K j)"

definition ordered :: "bool \<Rightarrow> 'a::linorder \<Rightarrow> 'a \<Rightarrow> bool" where
  "ordered desc a b = (if desc then b \<le> a else a \<le> b)"

text \<open>
  The state of a bitonic merge on a 0-1 array of \<open>C\<close> chunks of size \<open>K\<close>, grouped into
  runs of \<open>R\<close> chunks: every chunk, read through \<open>view\<close>, is bitonic, and within a run
  the chunks are already in the order of the run's direction (descending for the runs
  of odd index).
\<close>

definition merging :: "nat \<Rightarrow> nat \<Rightarrow> nat \<Rightarrow> (nat \<Rightarrow> bool) \<Rightarrow> bool" where
  "merging K R C z =
     ((\<forall>c<C. form01 K (view K z c)) \<and>
      (\<forall>c<C. \<forall>c'<C. \<forall>j<K. \<forall>j'<K. c < c' \<and> c div R = c' div R \<longrightarrow>
          ordered (odd (c div R)) (view K z c j) (view K z c' j')))"

text \<open>The cells \<open>0 ..< N\<close> consist of sorted runs of length \<open>M\<close>, ascending and descending in turn.\<close>

definition runs_sorted :: "nat \<Rightarrow> nat \<Rightarrow> (nat \<Rightarrow> 'a::linorder) \<Rightarrow> bool" where
  "runs_sorted M N z =
     (\<forall>i<N. \<forall>i'<N. i < i' \<and> i div M = i' div M \<longrightarrow> ordered (odd (i div M)) (z i) (z i'))"

text \<open>
  A key array seen through a threshold \<open>v\<close> is a 0-1 array; a property of key arrays
  is one that holds through every threshold.
\<close>

definition thr :: "'a::linorder \<Rightarrow> (nat \<Rightarrow> 'a) \<Rightarrow> nat \<Rightarrow> bool" where
  "thr v a i = (v \<le> a i)"

definition merging_keys :: "nat \<Rightarrow> nat \<Rightarrow> nat \<Rightarrow> (nat \<Rightarrow> 'a::linorder) \<Rightarrow> bool" where
  "merging_keys K R C a = (\<forall>v. merging K R C (thr v a))"

definition runs_sorted_keys :: "nat \<Rightarrow> nat \<Rightarrow> (nat \<Rightarrow> 'a::linorder) \<Rightarrow> bool" where
  "runs_sorted_keys M N a = (\<forall>v. runs_sorted M N (thr v a))"

declare benyan_substages.simps [simp del]
declare benyan_stages.simps [simp del]

section \<open>Properties\<close>

subsection \<open>\<^verbatim>\<open>getN\<close>\<close>

lemma wrap32_id: "0 < i \<Longrightarrow> i \<le> 2 ^ 30 \<Longrightarrow> wrap32 i = i"
  by (simp add: wrap32_def)

text \<open>
  Loop invariant: \<open>N\<close> is a power of two, at least 2, and the power below it (if \<open>N\<close>
  is not 2) is still too small.
\<close>

lemma getN_loop_inv:
  assumes "sz \<le> 2 ^ 30" "N = 2 ^ k" "1 \<le> k" "k \<le> 30" "k = 1 \<or> 2 ^ (k - 1) < sz"
  shows "\<exists>m. getN_loop sz N = Some (2 ^ m) \<and> 1 \<le> m \<and> sz \<le> 2 ^ m \<and> (m = 1 \<or> 2 ^ (m - 1) < sz)"
  using assms
proof (induction "30 - k" arbitrary: k N)
  case 0
  then have k: "k = 30" by simp
  with 0 have "\<not> N < sz" by simp
  then have "getN_loop sz N = Some (2 ^ k)" using 0 by (subst getN_loop.simps) simp
  with 0 k show ?case by (intro exI[of _ k]) auto
next
  case (Suc v)
  show ?case
  proof (cases "N < sz")
    case False
    then have "getN_loop sz N = Some (2 ^ k)" using Suc.prems by (subst getN_loop.simps) simp
    with Suc.prems False show ?thesis by (intro exI[of _ k]) auto
  next
    case True
    have k30: "k < 30" using Suc.hyps by simp
    have le: "(2::int) ^ Suc k \<le> 2 ^ 30" using k30 by (intro power_increasing) auto
    have pos: "(0::int) < 2 ^ Suc k" by simp
    have "wrap32 (2 ^ Suc k) = 2 ^ Suc k"
      by (rule wrap32_id[OF pos le])
    then have w: "wrap32 (N * 2) = 2 ^ Suc k" using Suc.prems by (simp add: mult.commute)
    have step: "getN_loop sz N = getN_loop sz (2 ^ Suc k)"
      using True w by (subst getN_loop.simps) simp
    have "\<exists>m. getN_loop sz (2 ^ Suc k) = Some (2 ^ m) \<and> 1 \<le> m \<and> sz \<le> 2 ^ m \<and> (m = 1 \<or> 2 ^ (m - 1) < sz)"
    proof (rule Suc.hyps(1))
      show "v = 30 - Suc k" using Suc.hyps(2) by simp
      show "sz \<le> 2 ^ 30" by (rule Suc.prems(1))
      show "(2::int) ^ Suc k = 2 ^ Suc k" by simp
      show "1 \<le> Suc k" by simp
      show "Suc k \<le> 30" using k30 by simp
      show "Suc k = 1 \<or> 2 ^ (Suc k - 1) < sz" using True Suc.prems(2) by simp
    qed
    with step show ?thesis by simp
  qed
qed

text \<open>Once \<open>N\<close> has wrapped to 0 the loop doubles 0 forever.\<close>

lemma getN_zero_loops:
  assumes sz: "0 < sz"
  shows "getN_loop sz 0 = None"
proof -
  have "\<not> (N = 0 \<and> 0 < s)" if "getN_loop s N = Some r" for s N r
    using that
    by (induction rule: getN_loop.raw_induct[rotated 1, consumes 1])
       (auto simp: wrap32_def split: if_splits)
  then show ?thesis using sz by (cases "getN_loop sz 0") auto
qed

lemma getN_step: "N < sz \<Longrightarrow> N \<noteq> 0 \<Longrightarrow> getN_loop sz N = getN_loop sz (wrap32 (N * 2))"
  by (subst getN_loop.simps) simp

text \<open>
  C10, as amended: for every size with \<open>1 \<le> size \<le> 2^30\<close>, \<^verbatim>\<open>getN(size)\<close> returns, and
  what it returns is the smallest power of two that is at least \<open>size\<close> and at least 2.
\<close>

theorem getN_smallest_power_of_two:
  assumes "1 \<le> sz" "sz \<le> 2 ^ 30"
  shows "\<exists>m. getN sz = Some (2 ^ m) \<and> sz \<le> 2 ^ m \<and> (2::int) \<le> 2 ^ m \<and>
           (\<forall>j. sz \<le> 2 ^ j \<and> (2::int) \<le> 2 ^ j \<longrightarrow> (2::int) ^ m \<le> 2 ^ j)"
proof -
  from getN_loop_inv[of sz 2 1] assms obtain m where
    m: "getN_loop sz 2 = Some (2 ^ m)" "1 \<le> m" "sz \<le> 2 ^ m" "m = 1 \<or> 2 ^ (m - 1) < sz"
    by auto
  have two: "(2::int) \<le> 2 ^ m"
    using m(2) by (metis power_increasing one_le_numeral power_one_right)
  have "(2::int) ^ m \<le> 2 ^ j" if j: "sz \<le> 2 ^ j" "(2::int) \<le> 2 ^ j" for j
  proof -
    have j1: "1 \<le> j" using j(2) by (cases j) auto
    have "m \<le> j"
    proof (cases "m = 1")
      case True
      then show ?thesis using j1 by simp
    next
      case False
      with m(4) have "(2::int) ^ (m - 1) < 2 ^ j" using j(1) by linarith
      then have "m - 1 < j" by (rule power_less_imp_less_exp[rotated]) simp
      then show ?thesis by simp
    qed
    then show ?thesis by (intro power_increasing) auto
  qed
  with m two show ?thesis unfolding getN_def by blast
qed

text \<open>The theorem at size 5: the hypotheses hold and \<^verbatim>\<open>getN(5)\<close> is 8.\<close>

theorem getN_smallest_power_of_two_witness:
  "(1::int) \<le> 5 \<and> (5::int) \<le> 2 ^ 30 \<and> getN 5 = Some 8 \<and>
   (\<exists>m. getN 5 = Some (2 ^ m) \<and> (5::int) \<le> 2 ^ m \<and> (2::int) \<le> 2 ^ m \<and>
           (\<forall>j. (5::int) \<le> 2 ^ j \<and> (2::int) \<le> 2 ^ j \<longrightarrow> (2::int) ^ m \<le> 2 ^ j))"
proof -
  have eight: "getN 5 = Some 8"
    unfolding getN_def by (simp add: getN_step getN_loop.simps[of 5 8] wrap32_def)
  show ?thesis
    using getN_smallest_power_of_two[of 5] eight by simp
qed

text \<open>
  C10 as stated fails: for \<open>size = 2^30 + 1\<close> the doubling of \<open>N = 2^30\<close> leaves the
  range of \<^verbatim>\<open>int\<close>; with wrap-around \<open>N\<close> becomes \<open>-2^31\<close>, then 0, and the loop
  never ends.
\<close>

theorem getN_overflow_counterexample: "getN (2 ^ 30 + 1) = None"
  unfolding getN_def
  by (simp add: getN_step getN_zero_loops wrap32_def)

subsection \<open>The permutation index mappings\<close>

lemma shuffleN_bij: "bij_betw (shuffleN_ind_out (2 ^ k)) {..<2 ^ k} {..<2 ^ k}"
proof (cases k)
  case 0
  then show ?thesis by (auto simp: bij_betw_def shuffleN_ind_out_def inj_on_def)
next
  case (Suc m)
  let ?S = "(2::nat) ^ k"
  let ?h = "(2::nat) ^ m"
  have S: "?S = 2 * ?h" using Suc by simp
  have inj: "inj_on (shuffleN_ind_out ?S) {..<?S}"
    unfolding inj_on_def shuffleN_ind_out_def S
    by (auto split: if_splits) presburger+
  have ran: "shuffleN_ind_out ?S ` {..<?S} \<subseteq> {..<?S}"
    unfolding shuffleN_ind_out_def S by auto
  have "finite {..<?S}" by simp
  from inj ran this have "shuffleN_ind_out ?S ` {..<?S} = {..<?S}"
    by (simp add: card_image card_subset_eq)
  with inj show ?thesis by (simp add: bij_betw_def)
qed

text \<open>The butterfly index on an even size, without the detour through \<open>int\<close>.\<close>

lemma butterflyN_ind_out_even_size:
  "0 < h \<Longrightarrow> butterflyN_ind_out (2 * h) p =
     (if p < h then (if even p then p else p + h - 1)
      else (if even p then p + 1 - h else p))"
  by (auto simp: butterflyN_ind_out_def nat_eq_iff)

lemma butterflyN_inj_aux:
  assumes "h = 1 \<or> even h" "0 < h"
  shows "inj_on (butterflyN_ind_out (2 * h)) {..<2 * h}"
  unfolding inj_on_def butterflyN_ind_out_even_size[OF assms(2)] using assms
  by (auto split: if_splits; presburger)

lemma butterflyN_range_aux:
  assumes "h = 1 \<or> even h" "0 < h" "p < 2 * h"
  shows "butterflyN_ind_out (2 * h) p < 2 * h"
  unfolding butterflyN_ind_out_even_size[OF assms(2)] using assms
  by (auto split: if_splits)

lemma butterflyN_bij:
  "bij_betw (butterflyN_ind_out (2 ^ Suc k)) {..<2 ^ Suc k} {..<2 ^ Suc k}"
proof -
  let ?S = "(2::nat) ^ Suc k"
  let ?h = "(2::nat) ^ k"
  have S: "?S = 2 * ?h" by simp
  have hh: "?h = 1 \<or> even ?h" by (cases k) auto
  have h0: "0 < ?h" by simp
  have inj: "inj_on (butterflyN_ind_out ?S) {..<?S}"
    unfolding S by (rule butterflyN_inj_aux[OF hh h0])
  have ran: "butterflyN_ind_out ?S ` {..<?S} \<subseteq> {..<?S}"
    unfolding S using butterflyN_range_aux[OF hh h0] by auto
  have "finite {..<?S}" by simp
  from inj ran this have "butterflyN_ind_out ?S ` {..<?S} = {..<?S}"
    by (simp add: card_image card_subset_eq)
  with inj show ?thesis by (simp add: bij_betw_def)
qed

text \<open>
  C2, as amended: the index mapping of \<^verbatim>\<open>shuffleN\<close> is a bijection over \<open>[0, S)\<close> for
  every power of two \<open>S = 2^k\<close>, and the index mapping of \<^verbatim>\<open>butterflyN\<close> is a bijection
  over \<open>[0, S)\<close> for every power of two \<open>S = 2^(k+1)\<close>, that is \<open>S \<ge> 2\<close>: every source
  index is read by exactly one output position.
\<close>

theorem permutation_bijection:
  "bij_betw (shuffleN_ind_out (2 ^ k)) {..<2 ^ k} {..<2 ^ k} \<and>
   bij_betw (butterflyN_ind_out (2 ^ Suc k)) {..<2 ^ Suc k} {..<2 ^ Suc k}"
  using shuffleN_bij butterflyN_bij by blast

text \<open>
  C2 as stated fails at \<open>S = 1 = 2^0\<close> for the butterfly: the only output position, 0,
  is even and not below \<^verbatim>\<open>size/2 = 0\<close>, so it reads source \<^verbatim>\<open>0 - (0 - 1) = 1\<close>, which
  is outside \<open>[0, 1)\<close>; source 0 is never read.
\<close>

theorem butterflyN_size_one_counterexample:
  "butterflyN_ind_out (2 ^ 0) 0 = 1 \<and>
   \<not> bij_betw (butterflyN_ind_out (2 ^ 0)) {..<2 ^ 0} {..<2 ^ 0}"
  by (auto simp add: bij_betw_def butterflyN_ind_out_def)

text \<open>
  C4, as amended: for every power of two \<open>S \<ge> 2\<close> and every source index \<open>j\<close> in
  \<open>[0, S)\<close>, the one output position \<open>p\<close> that reads \<open>j\<close> is \<open>2j\<close> when \<open>j\<close> lies in the
  first half and \<open>2(j - S/2) + 1\<close> when it lies in the second half: the first half goes
  to the even positions and the second half to the odd positions, a perfect shuffle
  (interleave) of the two halves.
\<close>

theorem shuffleN_destination:
  assumes "j < 2 ^ Suc k" "p < 2 ^ Suc k"
  shows "(shuffleN_ind_out (2 ^ Suc k) p = j) =
         (p = (if j < 2 ^ k then 2 * j else 2 * (j - 2 ^ k) + 1))"
  using assms unfolding shuffleN_ind_out_def by (auto; presburger)

theorem shuffleN_destination_witness:
  "(5::nat) < 2 ^ Suc 2 \<and> (3::nat) < 2 ^ Suc 2 \<and> shuffleN_ind_out (2 ^ Suc 2) 3 = 5 \<and>
   ((shuffleN_ind_out (2 ^ Suc 2) 3 = 5) =
    ((3::nat) = (if (5::nat) < 2 ^ 2 then 2 * 5 else 2 * (5 - 2 ^ 2) + 1)))"
  using shuffleN_destination[of 5 2 3] by (simp add: shuffleN_ind_out_def)

text \<open>
  C4 as stated fails at \<open>S = 8\<close>: output position 2, in the first half, reads the odd
  source index 1. On the keys \<open>0, ..., 7\<close> one launch of \<^verbatim>\<open>shuffleN\<close> over one chunk of 8
  leaves \<open>0, 4, 1, 5, 2, 6, 3, 7\<close>.
\<close>

theorem shuffleN_odd_source_counterexample:
  "shuffleN_ind_out 8 2 = 1 \<and> odd (1::nat) \<and> (2::nat) < 8 div 2 \<and>
   keys_of 8 (shuffleN 1 8 (dev_of 0 [0, 1, 2, 3, 4, 5, 6, 7::nat])) = [0, 4, 1, 5, 2, 6, 3, 7]"
  by code_simp

subsection \<open>Compare-exchange\<close>

lemma cas_body_keys:
  "buf_x (cas_body lv c d) i =
     (if i = 2 * c
      then fst (compare_exchange (comp_bool_of lv c) (buf_x d (2 * c)) (buf_x d (2 * c + 1)))
      else if i = 2 * c + 1
      then snd (compare_exchange (comp_bool_of lv c) (buf_x d (2 * c)) (buf_x d (2 * c + 1)))
      else buf_x d i)"
  by (simp add: cas_body_def cas_operands_def Let_def split: prod.splits)

lemma cas_body_y: "buf_y (cas_body lv c d) = buf_y d"
  by (simp add: cas_body_def cas_operands_def Let_def split: prod.splits)

text \<open>
  C5: the compare-exchange of \<^verbatim>\<open>compareAndSwap\<close> puts the smaller key first when its
  flag is false (ascending) and the larger key first when it is true; \<^verbatim>\<open>compare_and_switch\<close>
  puts the smaller key first for \<^verbatim>\<open>DOWN\<close> and the larger first for \<^verbatim>\<open>UP\<close>. In the key
  array, one comparator changes its two operand cells and no other, and it leaves the
  ping-pong buffer alone.
\<close>

theorem compare_exchange_direction:
  "compare_exchange False a b = (min a b, max a b) \<and>
   compare_exchange True a b = (max a b, min a b) \<and>
   compare_and_switch DOWN a b = (min a b, max a b) \<and>
   compare_and_switch UP a b = (max a b, min a b) \<and>
   buf_x (cas_body lv c d) i =
     (if i = 2 * c
      then fst (compare_exchange (comp_bool_of lv c) (buf_x d (2 * c)) (buf_x d (2 * c + 1)))
      else if i = 2 * c + 1
      then snd (compare_exchange (comp_bool_of lv c) (buf_x d (2 * c)) (buf_x d (2 * c + 1)))
      else buf_x d i) \<and>
   buf_y (cas_body lv c d) = buf_y d"
  unfolding cas_body_keys cas_body_y
  by (auto simp: compare_exchange_def compare_and_switch_def UP_def DOWN_def min_def max_def)

text \<open>
  C6: on two equal keys the compare-exchange returns the same two keys, for either
  direction, and a comparator whose operand cells hold equal keys leaves the key array
  as it was.
\<close>

theorem equal_keys_no_effect:
  "compare_exchange comp_bool a a = (a, a) \<and>
   compare_and_switch direction a a = (a, a) \<and>
   (buf_x d (2 * c) = buf_x d (2 * c + 1) \<longrightarrow> buf_x (cas_body lv c d) = buf_x d)"
  by (auto simp: cas_body_keys fun_eq_iff compare_exchange_def compare_and_switch_def UP_def DOWN_def)

theorem equal_keys_no_effect_witness:
  "buf_x (dev_of 0 [7, 7::nat]) (2 * 0) = buf_x (dev_of 0 [7, 7::nat]) (2 * 0 + 1) \<and>
   buf_x (cas_body 0 0 (dev_of 0 [7, 7::nat])) = buf_x (dev_of 0 [7, 7::nat]) \<and>
   compare_exchange True (7::nat) 7 = (7, 7)"
proof -
  have h: "buf_x (dev_of 0 [7, 7::nat]) (2 * 0) = buf_x (dev_of 0 [7, 7::nat]) (2 * 0 + 1)"
    by (simp add: dev_of_def)
  show ?thesis
    using equal_keys_no_effect[of True "7::nat" 0 "dev_of 0 [7, 7::nat]" 0 0] h by simp
qed

text \<open>
  C3 fails on the code. One launch of \<^verbatim>\<open>compareAndSwap\<close> over an \<open>N\<close>-element array
  visits the comparator positions \<open>0 ..< N\<close>, not \<open>0 ..< N/2\<close>, and comparator
  \<open>comp_ind\<close> works on the cells \<open>2*comp_ind\<close> and \<open>2*comp_ind + 1\<close>. For \<open>N = 2\<close> there
  are two comparators, and comparator 1 reads and writes the cells 2 and 3, past the
  two-element array: with 5 and 9 in those cells, the launch leaves 9 and 5 there.
\<close>

theorem compareAndSwap_past_the_end:
  "cas_positions 2 = [0, 1] \<and> cas_operands 1 = (2, 3) \<and>
   map (buf_x (compareAndSwap 0 2 (dev_of 0 [2, 1, 5, 9::nat]))) [0, 1, 2, 3] = [1, 2, 9, 5]"
  by code_simp

subsection \<open>The launches of \<^verbatim>\<open>benyan\<close>\<close>

lemma launches_launch_kernel:
  "st_launches (launch_kernel stage substage k run s) =
     st_launches s @ [\<lparr>l_stage = stage, l_substage = substage, l_kernel = k\<rparr>]"
  by (simp add: launch_kernel_def)

lemma cmpA_sites_permute_phase:
  "cmpA_sites (st_launches (permute_phase N dv stage substage s)) = cmpA_sites (st_launches s)"
  by (simp add: permute_phase_def Let_def launches_launch_kernel cmpA_sites_def)

lemma cmpA_sites_substages_last:
  assumes "\<not> stage < n - 1"
  shows "cmpA_sites (st_launches (benyan_substages N n stage 0 s)) =
         cmpA_sites (st_launches s) @ [(stage, 0)]"
  using assms
  by (subst benyan_substages.simps) (simp add: launches_launch_kernel cmpA_sites_def)

lemma cmpA_sites_substages_inner:
  assumes "stage < n - 1" "substage \<le> Suc stage"
  shows "cmpA_sites (st_launches (benyan_substages N n stage substage s)) =
         cmpA_sites (st_launches s) @ map (Pair stage) [substage..<Suc stage]"
  using assms
proof (induction N n stage substage s rule: benyan_substages.induct)
  case (1 N n stage substage s)
  show ?case
  proof (cases "substage \<le> stage")
    case False
    with 1 have "substage = Suc stage" by simp
    then show ?thesis by (subst benyan_substages.simps) simp
  next
    case True
    let ?s1 = "launch_kernel stage substage (CmpA (st_level s)) (compareAndSwap (st_level s) N) s"
    let ?dv = "N div 2 ^ (2 + stage - substage)"
    have unf: "benyan_substages N n stage substage s =
        benyan_substages N n stage (substage + 1) (permute_phase N ?dv stage substage ?s1)"
      using True "1.prems"(1) by (subst benyan_substages.simps) (simp add: Let_def)
    have IH: "cmpA_sites (st_launches (benyan_substages N n stage (substage + 1)
                 (permute_phase N ?dv stage substage ?s1))) =
        cmpA_sites (st_launches (permute_phase N ?dv stage substage ?s1)) @
          map (Pair stage) [substage + 1..<Suc stage]"
      using True "1.prems"(1) by (intro "1.IH"[OF True refl refl]) auto
    have "[substage..<Suc stage] = substage # [substage + 1..<Suc stage]"
      using True by (simp add: upt_rec)
    then show ?thesis
      unfolding unf IH cmpA_sites_permute_phase
      by (simp add: launches_launch_kernel cmpA_sites_def)
  qed
qed

lemma cmpA_sites_substages:
  "cmpA_sites (st_launches (benyan_substages N n stage 0 s)) =
     cmpA_sites (st_launches s) @ stage_sites n stage"
  by (cases "stage < n - 1")
     (simp_all add: cmpA_sites_substages_inner cmpA_sites_substages_last stage_sites_def)

lemma cmpA_sites_stages:
  "cmpA_sites (st_launches (benyan_stages N n stage s)) =
     cmpA_sites (st_launches s) @ concat (map (stage_sites n) [stage..<n])"
proof (induction N n stage s rule: benyan_stages.induct)
  case (1 N n stage s)
  show ?case
  proof (cases "stage < n")
    case False
    then show ?thesis by (subst benyan_stages.simps) simp
  next
    case True
    have "[stage..<n] = stage # [stage + 1..<n]" using True by (simp add: upt_rec)
    then show ?thesis
      using True "1.IH"[OF True]
      by (subst benyan_stages.simps) (simp add: cmpA_sites_substages)
  qed
qed

text \<open>
  C7, as amended: for every \<open>n\<close>, \<^verbatim>\<open>benyan\<close> goes through the stages \<open>0, ..., n-1\<close> in
  order; in a stage \<open>s < n-1\<close> it makes the phase-(a) compare-exchange launch once for
  each substage \<open>0, 1, ..., s\<close>, and in the final stage \<open>s = n-1\<close> it makes it once, for
  substage 0 only.
\<close>

theorem stage_substage_structure:
  "cmpA_sites (st_launches (benyan d N n)) =
     concat (map (\<lambda>stage. map (Pair stage) (if stage < n - 1 then [0..<Suc stage] else [0]))
                 [0..<n])"
  unfolding benyan_def cmpA_sites_stages
  by (simp add: cmpA_sites_def stage_sites_def[abs_def])

theorem stage_substage_structure_witness:
  "cmpA_sites (st_launches (benyan (dev_of 0 [3, 1, 4, 1, 5, 9, 2, 6::nat]) 8 3)) =
     [(0, 0), (1, 0), (1, 1), (2, 0)]"
  using stage_substage_structure[of "dev_of 0 [3, 1, 4, 1, 5, 9, 2, 6::nat]" 8 3]
  by (simp add: upt_rec)

text \<open>
  C7 as stated fails for \<open>n = 2\<close>: the final stage 1 runs substage 0 and breaks; there
  is no phase-(a) launch for stage 1, substage 1.
\<close>

theorem final_stage_counterexample:
  "cmpA_sites (st_launches (benyan (dev_of 0 [3, 1, 4, 1::nat]) 4 2)) = [(0, 0), (1, 0)] \<and>
   (1, 1) \<notin> set (cmpA_sites (st_launches (benyan (dev_of 0 [3, 1, 4, 1::nat]) 4 2)))"
  by code_simp


subsection \<open>The harness\<close>

text \<open>
  C8: if \<^verbatim>\<open>IsPowerOfTwo(N)\<close> is false, a sort of \<^verbatim>\<open>main\<close> creates its two timing events,
  prints the message to \<^verbatim>\<open>stderr\<close> and calls \<^verbatim>\<open>exit(1)\<close>; it allocates no device memory,
  copies nothing to the device and does not run the network.
\<close>

theorem fail_fast_not_power_of_two:
  assumes "\<not> IsPowerOfTwo N"
  shows "sort_once IsPowerOfTwo N n =
           [CudaEventCreate, CudaEventCreate,
            FprintfStderr ''Numberof items is not a power of two'', Exit 1] \<and>
         last (sort_once IsPowerOfTwo N n) = Exit 1 \<and>
         filter is_device_work (sort_once IsPowerOfTwo N n) = []"
  using assms by (simp add: sort_once_def)

theorem fail_fast_not_power_of_two_witness:
  "\<not> (\<lambda>N. N \<noteq> 0 \<and> and N (N - 1) = 0) (12::nat) \<and>
   last (sort_once (\<lambda>N. N \<noteq> 0 \<and> and N (N - 1) = 0) 12 4) = Exit 1 \<and>
   filter is_device_work (sort_once (\<lambda>N. N \<noteq> 0 \<and> and N (N - 1) = 0) 12 4) = []"
proof -
  have h: "\<not> (\<lambda>N. N \<noteq> 0 \<and> and N (N - 1) = 0) (12::nat)" by simp
  show ?thesis
    using fail_fast_not_power_of_two[of "\<lambda>N. N \<noteq> 0 \<and> and N (N - 1) = 0" 12 4, OF h] h
    by simp
qed

section \<open>Sortedness of the network output\<close>

subsection \<open>What a launch does to the key array\<close>

lemma cas_positions_Suc: "cas_positions (Suc N) = cas_positions N @ [N]"
  by (simp add: cas_positions_def)

lemma buf_x_compareAndSwap: "buf_x (compareAndSwap lv N d) = cas_arr lv N (buf_x d)"
proof (induction N)
  case 0
  show ?case by (simp add: compareAndSwap_def cas_positions_def cas_arr_def fun_eq_iff)
next
  case (Suc N)
  have unf: "compareAndSwap lv (Suc N) d = cas_body lv N (compareAndSwap lv N d)"
    by (simp add: compareAndSwap_def cas_positions_Suc)
  show ?case
  proof
    fix i
    have a: "cas_arr lv N (buf_x d) (2 * N) = buf_x d (2 * N)"
      "cas_arr lv N (buf_x d) (2 * N + 1) = buf_x d (2 * N + 1)"
      by (simp_all add: cas_arr_def)
    consider "i < 2 * N" | "i = 2 * N" | "i = 2 * N + 1" | "2 * N + 1 < i" by linarith
    then show "buf_x (compareAndSwap lv (Suc N) d) i = cas_arr lv (Suc N) (buf_x d) i"
    proof cases
      case 1
      then show ?thesis unfolding unf cas_body_keys Suc.IH a by (simp add: cas_arr_def)
    next
      case 2
      then show ?thesis unfolding unf cas_body_keys Suc.IH a by (simp add: cas_arr_def)
    next
      case 3
      then show ?thesis unfolding unf cas_body_keys Suc.IH a by (simp add: cas_arr_def)
    next
      case 4
      then show ?thesis unfolding unf cas_body_keys Suc.IH a by (simp add: cas_arr_def)
    qed
  qed
qed

lemma scatter_body_x: "buf_x (scatter_body f base p d) = buf_x d"
  by (simp add: scatter_body_def)

lemma scatter_body_y:
  "buf_y (scatter_body f base p d) i = (if i = base + p then buf_x d (base + f p) else buf_y d i)"
  by (simp add: scatter_body_def)

lemma copy_back_body_y: "buf_y (copy_back_body base p d) = buf_y d"
  by (simp add: copy_back_body_def)

lemma copy_back_body_x:
  "buf_x (copy_back_body base p d) i = (if i = base + p then buf_y d i else buf_x d i)"
  by (simp add: copy_back_body_def)

lemma scatter_fold_x: "buf_x (fold (scatter_body f base) [0..<k] d) = buf_x d"
  by (induction k) (simp_all add: scatter_body_x)

lemma scatter_fold_y:
  "buf_y (fold (scatter_body f base) [0..<k] d) i =
     (if base \<le> i \<and> i < base + k then buf_x d (base + f (i - base)) else buf_y d i)"
proof (induction k arbitrary: i)
  case 0
  show ?case by auto
next
  case (Suc k)
  show ?case
    by (auto simp: scatter_body_y Suc.IH scatter_fold_x)
qed

lemma copy_back_fold_y: "buf_y (fold (copy_back_body base) [0..<k] d) = buf_y d"
  by (induction k) (simp_all add: copy_back_body_y)

lemma copy_back_fold_x:
  "buf_x (fold (copy_back_body base) [0..<k] d) i =
     (if base \<le> i \<and> i < base + k then buf_y d i else buf_x d i)"
proof (induction k arbitrary: i)
  case 0
  show ?case by auto
next
  case (Suc k)
  show ?case
    by (auto simp: copy_back_body_x Suc.IH copy_back_fold_y)
qed

lemma buf_x_permute_block:
  "buf_x (permute_block f sz b d) i =
     (if b * sz \<le> i \<and> i < b * sz + sz then buf_x d (b * sz + f (i - b * sz)) else buf_x d i)"
  by (simp add: permute_block_def Let_def copy_back_fold_x scatter_fold_y scatter_fold_x)

lemma buf_x_permute_grid:
  "buf_x (fold (permute_block f sz) [0..<g] d) = perm_arr f g sz (buf_x d)"
proof (induction g)
  case 0
  show ?case by (simp add: perm_arr_def fun_eq_iff)
next
  case (Suc g)
  show ?case
  proof
    fix i
    have rd: "perm_arr f g sz (buf_x d) (g * sz + f (i - g * sz)) = buf_x d (g * sz + f (i - g * sz))"
      by (simp add: perm_arr_def)
    show "buf_x (fold (permute_block f sz) [0..<Suc g] d) i = perm_arr f (Suc g) sz (buf_x d) i"
    proof (cases "g * sz \<le> i \<and> i < g * sz + sz")
      case True
      then have sz: "0 < sz" by auto
      from True have dv: "i div sz = g"
        by (metis div_nat_eqI mult.commute mult_Suc_right add.commute)
      have md: "i mod sz = i - g * sz"
        using dv by (metis minus_mult_div_eq_mod mult.commute)
      show ?thesis using True
        by (simp add: buf_x_permute_block Suc.IH rd) (simp add: perm_arr_def dv md)
    next
      case False
      then show ?thesis
        by (simp add: buf_x_permute_block Suc.IH) (auto simp: perm_arr_def)
    qed
  qed
qed

lemma buf_x_shuffleN: "buf_x (shuffleN g sz d) = perm_arr (shuffleN_ind_out sz) g sz (buf_x d)"
  by (simp add: shuffleN_def buf_x_permute_grid)

lemma buf_x_butterflyN: "buf_x (butterflyN g sz d) = perm_arr (butterflyN_ind_out sz) g sz (buf_x d)"
  by (simp add: butterflyN_def buf_x_permute_grid)

subsection \<open>Bitonic 0-1 sequences and the half-cleaner\<close>

text \<open>
  Comparing element \<open>j\<close> of a bitonic 0-1 sequence of length \<open>2h\<close> with element \<open>j + h\<close>
  leaves the minima and the maxima bitonic, and either all minima are 0 or all maxima are 1.
\<close>

lemma form01I: "p \<le> q \<Longrightarrow> q \<le> K \<Longrightarrow> (\<And>i. i < K \<Longrightarrow> b i = (t = (p \<le> i \<and> i < q))) \<Longrightarrow> form01 K b"
  unfolding form01_def by blast

lemma form01_cong: "(\<And>i. i < K \<Longrightarrow> b i = b' i) \<Longrightarrow> form01 K b = form01 K b'"
  unfolding form01_def by simp

lemma form01_not: "form01 K b \<Longrightarrow> form01 K (\<lambda>i. \<not> b i)"
proof -
  assume "form01 K b"
  then obtain p q t where pq: "p \<le> q" "q \<le> K" "\<forall>i<K. b i = (t = (p \<le> i \<and> i < q))"
    unfolding form01_def by blast
  show ?thesis
    by (rule form01I[of p q K _ "\<not> t", OF pq(1,2)]) (use pq(3) in auto)
qed

lemma form01_two: "form01 2 b"
proof -
  consider "\<not> b 0 \<and> \<not> b 1" | "\<not> b 0 \<and> b 1" | "b 0 \<and> \<not> b 1" | "b 0 \<and> b 1" by blast
  then show ?thesis
  proof cases
    case 1
    show ?thesis by (rule form01I[of 0 0 2 b True]) (use 1 in \<open>auto simp: less_2_cases_iff\<close>)
  next
    case 2
    show ?thesis by (rule form01I[of 1 2 2 b True]) (use 2 in \<open>auto simp: less_2_cases_iff\<close>)
  next
    case 3
    show ?thesis by (rule form01I[of 0 1 2 b True]) (use 3 in \<open>auto simp: less_2_cases_iff\<close>)
  next
    case 4
    show ?thesis by (rule form01I[of 0 2 2 b True]) (use 4 in \<open>auto simp: less_2_cases_iff\<close>)
  qed
qed

lemma half_cleaner_ones:
  assumes pq: "p \<le> q" "q \<le> 2 * h" and b: "\<And>i. i < 2 * h \<Longrightarrow> b i = (p \<le> i \<and> i < q)"
  shows "form01 h (\<lambda>j. b j \<and> b (j + h)) \<and> form01 h (\<lambda>j. b j \<or> b (j + h)) \<and>
         ((\<forall>j<h. \<not> (b j \<and> b (j + h))) \<or> (\<forall>j<h. b j \<or> b (j + h)))"
proof (cases "q \<le> p + h")
  case True
  have L0: "\<not> (b j \<and> b (j + h))" if "j < h" for j
    using that True by (simp add: b)
  have L: "form01 h (\<lambda>j. b j \<and> b (j + h))"
    by (rule form01I[of 0 0 h _ True]) (use L0 in auto)
  have H: "form01 h (\<lambda>j. b j \<or> b (j + h))"
  proof -
    consider "q \<le> h" | "h \<le> p" | "p < h \<and> h < q" by linarith
    then show ?thesis
    proof cases
      case 1
      show ?thesis
        by (rule form01I[of p q h _ True]) (use 1 pq in \<open>auto simp: b\<close>)
    next
      case 2
      show ?thesis
        by (rule form01I[of "p - h" "q - h" h _ True]) (use 2 pq in \<open>auto simp: b\<close>)
    next
      case 3
      show ?thesis
        by (rule form01I[of "q - h" p h _ False]) (use 3 pq True in \<open>auto simp: b\<close>)
    qed
  qed
  from L H L0 show ?thesis by blast
next
  case False
  have H1: "b j \<or> b (j + h)" if "j < h" for j
    using that False pq by (simp add: b) linarith
  have H: "form01 h (\<lambda>j. b j \<or> b (j + h))"
    by (rule form01I[of 0 h h _ True]) (use H1 in auto)
  have L: "form01 h (\<lambda>j. b j \<and> b (j + h))"
    by (rule form01I[of p "q - h" h _ True]) (use False pq in \<open>auto simp: b\<close>)
  from L H H1 show ?thesis by blast
qed

lemma half_cleaner:
  assumes "form01 (2 * h) b"
  shows "form01 h (\<lambda>j. b j \<and> b (j + h)) \<and> form01 h (\<lambda>j. b j \<or> b (j + h)) \<and>
         ((\<forall>j<h. \<not> (b j \<and> b (j + h))) \<or> (\<forall>j<h. b j \<or> b (j + h)))"
proof -
  from assms obtain p q t where pq: "p \<le> q" "q \<le> 2 * h"
    and bt: "\<forall>i<2 * h. b i = (t = (p \<le> i \<and> i < q))"
    unfolding form01_def by blast
  show ?thesis
  proof (cases t)
    case True
    with bt have "\<And>i. i < 2 * h \<Longrightarrow> b i = (p \<le> i \<and> i < q)" by simp
    from half_cleaner_ones[OF pq this] show ?thesis .
  next
    case False
    with bt have nb: "\<And>i. i < 2 * h \<Longrightarrow> (\<not> b i) = (p \<le> i \<and> i < q)" by simp
    from half_cleaner_ones[OF pq, of "\<lambda>i. \<not> b i", OF nb]
    have 1: "form01 h (\<lambda>j. \<not> b j \<and> \<not> b (j + h))"
      and 2: "form01 h (\<lambda>j. \<not> b j \<or> \<not> b (j + h))"
      and 3: "(\<forall>j<h. \<not> (\<not> b j \<and> \<not> b (j + h))) \<or> (\<forall>j<h. \<not> b j \<or> \<not> b (j + h))"
      by blast+
    from form01_not[OF 1] have H: "form01 h (\<lambda>j. b j \<or> b (j + h))" by simp
    from form01_not[OF 2] have L: "form01 h (\<lambda>j. b j \<and> b (j + h))" by simp
    from L H 3 show ?thesis by blast
  qed
qed

lemma asc_bool_form:
  assumes "\<forall>i i'. i < i' \<and> i' < (M::nat) \<longrightarrow> b i \<le> b i'"
  shows "\<exists>a\<le>M. \<forall>j<M. b j = (a \<le> j)"
  using assms
proof (induction M)
  case 0
  show ?case by simp
next
  case (Suc M)
  then obtain a where a: "a \<le> M" "\<forall>j<M. b j = (a \<le> j)" by (metis less_Suc_eq)
  show ?case
  proof (cases "b M")
    case True
    then show ?thesis using a by (intro exI[of _ a]) (auto simp: less_Suc_eq)
  next
    case False
    have "\<not> b j" if "j < M" for j using Suc.prems that False by auto
    with False show ?thesis by (intro exI[of _ "Suc M"]) (auto simp: less_Suc_eq)
  qed
qed

lemma desc_bool_form:
  assumes "\<forall>i i'. i < i' \<and> i' < (M::nat) \<longrightarrow> b i' \<le> b i"
  shows "\<exists>a\<le>M. \<forall>j<M. b j = (j < a)"
proof -
  have "\<exists>a\<le>M. \<forall>j<M. (\<not> b j) = (a \<le> j)"
    by (rule asc_bool_form) (use assms in auto)
  then obtain a where "a \<le> M" "\<forall>j<M. (\<not> b j) = (a \<le> j)" by blast
  then show ?thesis by (intro exI[of _ a]) auto
qed

subsection \<open>One merge step: compare-exchange, then butterfly\<close>

lemma comp_bool_of_bit: "comp_bool_of lv c = odd (c div 2 ^ lv)"
  unfolding comp_bool_of_def
  by (metis bit_iff_and_push_bit_not_eq_0 bit_iff_odd)

lemma compare_exchange_bool:
  "compare_exchange D (a::bool) b = (if D then (a \<or> b, a \<and> b) else (a \<and> b, a \<or> b))"
  by (auto simp: compare_exchange_def)

lemma chunk_lt: "c < C \<Longrightarrow> r < K \<Longrightarrow> c * K + r < C * (K::nat)"
proof -
  assume a: "c < C" "r < K"
  then have "Suc c * K \<le> C * K" by (intro mult_le_mono1) simp
  with a show ?thesis by simp
qed

lemma dir_chunk:
  assumes "2 * 2 ^ lv = K * R" "r < K"
  shows "comp_bool_of lv ((c * K + r) div 2) = odd (c div R)"
proof -
  have "(c * K + r) div 2 div 2 ^ lv = (c * K + r) div (2 * 2 ^ lv)"
    by (simp add: div_mult2_eq)
  also have "\<dots> = (c * K + r) div K div R"
    unfolding assms(1) by (simp add: div_mult2_eq)
  also have "(c * K + r) div K = c" using assms(2) by simp
  finally show ?thesis by (simp add: comp_bool_of_bit)
qed

lemma cas_arr_even:
  "even e \<Longrightarrow> e < 2 * N \<Longrightarrow>
   cas_arr lv N z e = fst (compare_exchange (comp_bool_of lv (e div 2)) (z e) (z (e + 1)))"
  by (simp add: cas_arr_def)

lemma cas_arr_odd:
  "even e \<Longrightarrow> e + 1 < 2 * N \<Longrightarrow>
   cas_arr lv N z (e + 1) = snd (compare_exchange (comp_bool_of lv (e div 2)) (z e) (z (e + 1)))"
  by (simp add: cas_arr_def)

lemma view_butterfly:
  assumes q: "0 < q" and h: "h = 2 * q" and K: "K = 2 * h" and lv: "2 * 2 ^ lv = K * R"
    and c: "c < C" and j: "j < h" and N: "N = K * C"
  shows "view h (perm_arr (butterflyN_ind_out K) C K (cas_arr lv N z)) (2 * c) j =
           fst (compare_exchange (odd (c div R)) (view K z c j) (view K z c (j + h)))"
    and "view h (perm_arr (butterflyN_ind_out K) C K (cas_arr lv N z)) (2 * c + 1) j =
           snd (compare_exchange (odd (c div R)) (view K z c j) (view K z c (j + h)))"
proof -
  let ?z1 = "cas_arr lv N z"
  let ?z2 = "perm_arr (butterflyN_ind_out K) C K ?z1"
  let ?p = "ush h j"
  have h0: "0 < h" using q h by simp
  have p: "?p < h" using j h by (auto simp: ush_def)
  have pK: "?p < K" "h + ?p < K" using p K by simp_all
  have b1: "butterflyN_ind_out K ?p = 2 * j"
    unfolding K butterflyN_ind_out_even_size[OF h0] using j h by (auto simp: ush_def)
  have b2: "butterflyN_ind_out K (h + ?p) = 2 * j + 1"
    unfolding K butterflyN_ind_out_even_size[OF h0] using j h by (auto simp: ush_def)
  have vj: "view K z c j = z (c * K + 2 * j)"
    using j K by (simp add: view_def ush_def)
  have vjh: "view K z c (j + h) = z (c * K + 2 * j + 1)"
    using j K by (simp add: view_def ush_def)
  have in2: "2 * j < K" "2 * j + 1 < K" using j K by simp_all
  have ev: "even (c * K + 2 * j)" using K by simp
  have lt: "c * K + 2 * j < 2 * N" "c * K + 2 * j + 1 < 2 * N"
    using chunk_lt[OF c in2(1)] chunk_lt[OF c in2(2)] N by (simp_all add: mult.commute)
  have z1a: "?z1 (c * K + 2 * j) =
      fst (compare_exchange (odd (c div R)) (z (c * K + 2 * j)) (z (c * K + 2 * j + 1)))"
    unfolding cas_arr_even[OF ev lt(1)] dir_chunk[OF lv in2(1)] by simp
  have z1b: "?z1 (c * K + 2 * j + 1) =
      snd (compare_exchange (odd (c div R)) (z (c * K + 2 * j)) (z (c * K + 2 * j + 1)))"
    unfolding cas_arr_odd[OF ev lt(2)] dir_chunk[OF lv in2(1)] by simp
  have i1: "2 * c * h + ?p = c * K + ?p" using K by simp
  have i2: "(2 * c + 1) * h + ?p = c * K + (h + ?p)" using K by simp
  show "view h ?z2 (2 * c) j =
           fst (compare_exchange (odd (c div R)) (view K z c j) (view K z c (j + h)))"
    unfolding view_def[of h] i1 vj vjh
    using chunk_lt[OF c pK(1)] pK(1) z1a by (simp add: perm_arr_def b1)
  show "view h ?z2 (2 * c + 1) j =
           snd (compare_exchange (odd (c div R)) (view K z c j) (view K z c (j + h)))"
    unfolding view_def[of h] i2 vj vjh
    using chunk_lt[OF c pK(2)] pK(2) z1b by (simp add: perm_arr_def b2)
qed

lemma merge_step:
  assumes q: "0 < q" and h: "h = 2 * q" and K: "K = 2 * h" and lv: "2 * 2 ^ lv = K * R"
    and N: "N = K * C" and m: "merging K R C z"
  shows "merging h (2 * R) (2 * C) (perm_arr (butterflyN_ind_out K) C K (cas_arr lv N z))"
proof -
  let ?z2 = "perm_arr (butterflyN_ind_out K) C K (cas_arr lv N z)"
  let ?b = "view K z"
  let ?D = "\<lambda>c. odd (c div R)"
  note vb = view_butterfly[OF q h K lv _ _ N]
  have forms: "form01 (2 * h) (?b c)" if "c < C" for c
    using m that K unfolding merging_def by blast
  have ords: "ordered (?D c) (?b c a) (?b c' a')"
    if "c < C" "c' < C" "a < K" "a' < K" "c < c'" "c div R = c' div R" for c c' a a'
    using m that unfolding merging_def by blast
  have v0: "view h ?z2 (2 * c) j = (if ?D c then ?b c j \<or> ?b c (j + h) else ?b c j \<and> ?b c (j + h))"
    if "c < C" "j < h" for c j
    using vb(1)[OF that, of z] by (simp add: compare_exchange_bool)
  have v1: "view h ?z2 (Suc (2 * c)) j = (if ?D c then ?b c j \<and> ?b c (j + h) else ?b c j \<or> ?b c (j + h))"
    if "c < C" "j < h" for c j
    using vb(2)[OF that, of z] by (simp add: compare_exchange_bool)
  have split: "\<exists>c<C. c1 = 2 * c \<or> c1 = Suc (2 * c)" if "c1 < 2 * C" for c1
    by (rule exI[of _ "c1 div 2"]) (use that in presburger)
  have A: "form01 h (view h ?z2 c1)" if c1: "c1 < 2 * C" for c1
  proof -
    from split[OF c1] obtain c where c: "c < C" "c1 = 2 * c \<or> c1 = Suc (2 * c)" by blast
    from half_cleaner[OF forms[OF c(1)]]
    have L: "form01 h (\<lambda>j. ?b c j \<and> ?b c (j + h))" and H: "form01 h (\<lambda>j. ?b c j \<or> ?b c (j + h))"
      by blast+
    from c(2) show ?thesis
    proof
      assume e: "c1 = 2 * c"
      show ?thesis
      proof (cases "?D c")
        case True
        have "form01 h (view h ?z2 c1) = form01 h (\<lambda>j. ?b c j \<or> ?b c (j + h))"
          unfolding e by (rule form01_cong) (simp add: v0[OF c(1)] True)
        with H show ?thesis by simp
      next
        case False
        have "form01 h (view h ?z2 c1) = form01 h (\<lambda>j. ?b c j \<and> ?b c (j + h))"
          unfolding e by (rule form01_cong) (simp add: v0[OF c(1)] False)
        with L show ?thesis by simp
      qed
    next
      assume e: "c1 = Suc (2 * c)"
      show ?thesis
      proof (cases "?D c")
        case True
        have "form01 h (view h ?z2 c1) = form01 h (\<lambda>j. ?b c j \<and> ?b c (j + h))"
          unfolding e by (rule form01_cong) (simp add: v1[OF c(1)] True)
        with L show ?thesis by simp
      next
        case False
        have "form01 h (view h ?z2 c1) = form01 h (\<lambda>j. ?b c j \<or> ?b c (j + h))"
          unfolding e by (rule form01_cong) (simp add: v1[OF c(1)] False)
        with H show ?thesis by simp
      qed
    qed
  qed
  have B: "ordered (odd (c1 div (2 * R))) (view h ?z2 c1 j) (view h ?z2 c1' j')"
    if c1: "c1 < 2 * C" and c1': "c1' < 2 * C" and j: "j < h" and j': "j' < h"
      and lt: "c1 < c1'" and same: "c1 div (2 * R) = c1' div (2 * R)" for c1 c1' j j'
  proof -
    from split[OF c1] obtain c where c: "c < C" "c1 = 2 * c \<or> c1 = Suc (2 * c)" by blast
    from split[OF c1'] obtain c' where c': "c' < C" "c1' = 2 * c' \<or> c1' = Suc (2 * c')" by blast
    have cd: "c1 div 2 = c" "c1' div 2 = c'" using c(2) c'(2) by auto
    have dR: "c1 div (2 * R) = c div R" "c1' div (2 * R) = c' div R"
      using cd by (simp_all add: div_mult2_eq)
    have jK: "j < K" "j + h < K" "j' < K" "j' + h < K" using j j' K by simp_all
    have cc: "c \<le> c'" using lt cd by (metis div_le_mono less_imp_le)
    show ?thesis
    proof (cases "c < c'")
      case True
      have sameR: "c div R = c' div R" using same dR by simp
      note o = ords[OF c(1) c'(1) _ _ True sameR]
      from o[OF jK(1) jK(3)] o[OF jK(1) jK(4)] o[OF jK(2) jK(3)] o[OF jK(2) jK(4)]
      show ?thesis
        unfolding dR(1) using c(2) c'(2) sameR
        by (auto simp: v0[OF c(1) j] v1[OF c(1) j] v0[OF c'(1) j'] v1[OF c'(1) j'] ordered_def)
    next
      case False
      with cc have eq: "c' = c" by simp
      with lt c(2) c'(2) have e: "c1 = 2 * c" "c1' = Suc (2 * c)" by auto
      from half_cleaner[OF forms[OF c(1)]]
      have "(\<forall>j<h. \<not> (?b c j \<and> ?b c (j + h))) \<or> (\<forall>j<h. ?b c j \<or> ?b c (j + h))" by blast
      then show ?thesis
        unfolding dR(1) e using j j'
        by (auto simp: v0[OF c(1) j] v1[OF c(1) j'] ordered_def)
    qed
  qed
  show ?thesis unfolding merging_def using A B by blast
qed

subsection \<open>The compare-exchange that finishes a merge\<close>

lemma compare_exchange_idem:
  "compare_exchange D (fst (compare_exchange D a b)) (snd (compare_exchange D a b)) =
     compare_exchange D a b"
  by (auto simp: compare_exchange_def)

lemma cas_arr_idem: "cas_arr lv N (cas_arr lv N z) = cas_arr lv N z"
proof
  fix i
  show "cas_arr lv N (cas_arr lv N z) i = cas_arr lv N z i"
  proof (cases "i < 2 * N")
    case False
    then show ?thesis by (simp add: cas_arr_def)
  next
    case True
    show ?thesis
    proof (cases "even i")
      case ev: True
      then have lt: "i + 1 < 2 * N" using True by presburger
      show ?thesis
        unfolding cas_arr_even[OF ev True, of lv "cas_arr lv N z"]
        unfolding cas_arr_even[OF ev True, of lv z] cas_arr_odd[OF ev lt, of lv z]
        by (simp only: compare_exchange_idem)
    next
      case od: False
      then obtain e where e: "i = e + 1" "even e" by (metis oddE add.commute even_mult_iff even_numeral odd_one odd_add)
      have lt: "e < 2 * N" "e + 1 < 2 * N" using True e by simp_all
      show ?thesis
        unfolding e(1) cas_arr_odd[OF e(2) lt(2), of lv "cas_arr lv N z"]
        unfolding cas_arr_even[OF e(2) lt(1), of lv z] cas_arr_odd[OF e(2) lt(2), of lv z]
        by (simp only: compare_exchange_idem)
    qed
  qed
qed

lemma cas_arr_at:
  "i < 2 * N \<Longrightarrow> cas_arr lv N z i =
     (if even i
      then fst (compare_exchange (comp_bool_of lv (i div 2)) (z (2 * (i div 2))) (z (2 * (i div 2) + 1)))
      else snd (compare_exchange (comp_bool_of lv (i div 2)) (z (2 * (i div 2))) (z (2 * (i div 2) + 1))))"
  by (cases "even i") (auto simp: cas_arr_def elim!: evenE oddE)

lemma merging_initial: "merging 2 1 C z"
  unfolding merging_def by (auto simp: form01_two)

lemma view_two: "view 2 z c 0 = z (2 * c)" "view 2 z c (Suc 0) = z (Suc (2 * c))"
  by (simp_all add: view_def ush_def mult.commute)

lemma finish_step:
  assumes lv: "2 ^ lv = R" and N: "N = 2 * C" and m: "merging 2 R C z"
  shows "runs_sorted (2 * R) N (cas_arr lv N z)"
  unfolding runs_sorted_def
proof (intro allI impI)
  fix i i'
  assume i: "i < N" and i': "i' < N" and h: "i < i' \<and> i div (2 * R) = i' div (2 * R)"
  let ?c = "i div 2" and ?c' = "i' div 2"
  let ?D = "odd (?c div R)"
  have c: "?c < C" "?c' < C" using i i' N by auto
  have dR: "i div (2 * R) = ?c div R" "i' div (2 * R) = ?c' div R"
    by (simp_all add: div_mult2_eq)
  have sameR: "?c div R = ?c' div R" using h dR by simp
  have D: "comp_bool_of lv ?c = ?D" "comp_bool_of lv ?c' = ?D"
    using sameR by (simp_all add: comp_bool_of_bit lv)
  have lt: "2 * ?c < 2 * N" "2 * ?c + 1 < 2 * N" "2 * ?c' < 2 * N" "2 * ?c' + 1 < 2 * N"
    using i i' by auto
  have vi: "cas_arr lv N z i =
      (if even i then fst (compare_exchange ?D (z (2 * ?c)) (z (2 * ?c + 1)))
       else snd (compare_exchange ?D (z (2 * ?c)) (z (2 * ?c + 1))))"
    using cas_arr_at[of i N lv z] i D by simp
  have vi': "cas_arr lv N z i' =
      (if even i' then fst (compare_exchange ?D (z (2 * ?c')) (z (2 * ?c' + 1)))
       else snd (compare_exchange ?D (z (2 * ?c')) (z (2 * ?c' + 1))))"
    using cas_arr_at[of i' N lv z] i' D by simp
  show "ordered (odd (i div (2 * R))) (cas_arr lv N z i) (cas_arr lv N z i')"
  proof (cases "?c < ?c'")
    case True
    have o: "ordered ?D (view 2 z ?c a) (view 2 z ?c' a')" if "a < 2" "a' < 2" for a a'
      using m c True sameR that unfolding merging_def by blast
    have "ordered ?D (z (2 * ?c)) (z (2 * ?c'))" "ordered ?D (z (2 * ?c)) (z (2 * ?c' + 1))"
      "ordered ?D (z (2 * ?c + 1)) (z (2 * ?c'))" "ordered ?D (z (2 * ?c + 1)) (z (2 * ?c' + 1))"
      using o[of 0 0] o[of 0 1] o[of 1 0] o[of 1 1] by (simp_all add: view_two)
    then show ?thesis
      unfolding dR(1) vi vi' by (auto simp: compare_exchange_bool ordered_def)
  next
    case False
    with h have eq: "?c' = ?c" by (metis div_le_mono less_imp_le nat_less_le)
    have il: "i < i'" using h by simp
    have "even i \<and> odd i'" using il eq by presburger
    then have "even i" "odd i'" by simp_all
    then show ?thesis
      unfolding dR(1) vi vi' eq by (auto simp: compare_exchange_bool ordered_def)
  qed
qed

subsection \<open>The shuffle that starts a merge\<close>

lemma shuffleN_ind_out_ush: "j < 2 * M \<Longrightarrow> shuffleN_ind_out (2 * M) (ush (2 * M) j) = j"
  by (auto simp: shuffleN_ind_out_def ush_def)

lemma ush_lt: "j < 2 * M \<Longrightarrow> ush (2 * M) j < 2 * M"
  by (auto simp: ush_def)

lemma view_shuffle:
  assumes "c < C" "j < 2 * M"
  shows "view (2 * M) (perm_arr (shuffleN_ind_out (2 * M)) C (2 * M) z) c j = z (c * (2 * M) + j)"
proof -
  have u: "ush (2 * M) j < 2 * M" by (rule ush_lt[OF assms(2)])
  from chunk_lt[OF assms(1) u] u show ?thesis
    unfolding view_def by (simp add: perm_arr_def shuffleN_ind_out_ush[OF assms(2)])
qed

lemma chunk_div: "r < M \<Longrightarrow> (k * M + r) div M = (k::nat)"
  by simp

lemma runs_sortedD:
  "runs_sorted M N z \<Longrightarrow> i < N \<Longrightarrow> i' < N \<Longrightarrow> i < i' \<Longrightarrow> i div M = i' div M \<Longrightarrow>
   ordered (odd (i div M)) (z i) (z i')"
  unfolding runs_sorted_def by blast

lemma shuffle_step:
  assumes M: "0 < M" and N: "N = 2 * M * C" and rs: "runs_sorted M N z"
  shows "merging (2 * M) 1 C (perm_arr (shuffleN_ind_out (2 * M)) C (2 * M) z)"
proof -
  let ?z' = "perm_arr (shuffleN_ind_out (2 * M)) C (2 * M) z"
  have A: "form01 (2 * M) (view (2 * M) ?z' c)" if c: "c < C" for c
  proof -
    let ?lo = "\<lambda>j. z (c * (2 * M) + j)"
    let ?hi = "\<lambda>j. z (c * (2 * M) + (M + j))"
    have inN: "c * (2 * M) + r < N" if "r < 2 * M" for r
      using chunk_lt[OF c that] N by (simp add: mult.commute)
    have dlo: "(c * (2 * M) + r) div M = 2 * c" if "r < M" for r
    proof -
      have "c * (2 * M) + r = (2 * c) * M + r" by simp
      then show ?thesis using chunk_div[OF that, of "2 * c"] by (simp only:)
    qed
    have dhi: "(c * (2 * M) + (M + r)) div M = 2 * c + 1" if "r < M" for r
    proof -
      have "c * (2 * M) + (M + r) = (2 * c + 1) * M + r" by simp
      then show ?thesis using chunk_div[OF that, of "2 * c + 1"] by (simp only:)
    qed
    have "\<forall>i i'. i < i' \<and> i' < M \<longrightarrow> ?lo i \<le> ?lo i'"
    proof (intro allI impI)
      fix i i' assume a: "i < i' \<and> i' < M"
      then have "ordered (odd ((c * (2 * M) + i) div M)) (?lo i) (?lo i')"
        by (intro runs_sortedD[OF rs] inN) (simp_all add: dlo)
      then show "?lo i \<le> ?lo i'" using a by (simp add: dlo ordered_def)
    qed
    from asc_bool_form[OF this] obtain a where a: "a \<le> M" "\<forall>j<M. ?lo j = (a \<le> j)" by blast
    have "\<forall>i i'. i < i' \<and> i' < M \<longrightarrow> ?hi i' \<le> ?hi i"
    proof (intro allI impI)
      fix i i' assume b: "i < i' \<and> i' < M"
      then have "ordered (odd ((c * (2 * M) + (M + i)) div M)) (?hi i) (?hi i')"
        by (intro runs_sortedD[OF rs] inN) (simp_all add: dhi)
      then show "?hi i' \<le> ?hi i" using b by (simp add: dhi ordered_def)
    qed
    from desc_bool_form[OF this] obtain a' where a': "a' \<le> M" "\<forall>j<M. ?hi j = (j < a')" by blast
    have "form01 (2 * M) ?lo"
    proof (rule form01I[of a "M + a'" _ _ True])
      show "a \<le> M + a'" using a(1) by simp
      show "M + a' \<le> 2 * M" using a'(1) by simp
    next
      fix i assume i: "i < 2 * M"
      show "?lo i = (True = (a \<le> i \<and> i < M + a'))"
      proof (cases "i < M")
        case True
        then show ?thesis using a by simp
      next
        case False
        then have "i = M + (i - M)" "i - M < M" using i by simp_all
        then have "?lo i = ?hi (i - M)" by simp
        also have "\<dots> = (i - M < a')" using a'(2) \<open>i - M < M\<close> by blast
        finally show ?thesis using False a(1) by auto
      qed
    qed
    moreover have "form01 (2 * M) (view (2 * M) ?z' c) = form01 (2 * M) ?lo"
      by (rule form01_cong) (rule view_shuffle[OF c])
    ultimately show ?thesis by simp
  qed
  show ?thesis unfolding merging_def using A by auto
qed

subsection \<open>From 0-1 arrays to keys\<close>

lemma thr_compare_exchange:
  "(v \<le> fst (compare_exchange D x y)) = fst (compare_exchange D (v \<le> x) (v \<le> y))"
  "(v \<le> snd (compare_exchange D x y)) = snd (compare_exchange D (v \<le> x) (v \<le> y))"
  by (auto simp: compare_exchange_def)

lemma thr_cas_arr: "thr v (cas_arr lv N a) = cas_arr lv N (thr v a)"
  by (rule ext) (simp add: thr_def cas_arr_def thr_compare_exchange)

lemma thr_perm_arr: "thr v (perm_arr f g sz a) = perm_arr f g sz (thr v a)"
  by (rule ext) (simp add: thr_def perm_arr_def)

lemma finish_step_keys:
  assumes "2 ^ lv = R" "N = 2 * C" "merging_keys 2 R C a"
  shows "runs_sorted_keys (2 * R) N (cas_arr lv N a)"
  using assms unfolding merging_keys_def runs_sorted_keys_def thr_cas_arr
  by (auto intro: finish_step)

lemma shuffle_step_keys:
  assumes "0 < M" "N = 2 * M * C" "runs_sorted_keys M N a"
  shows "merging_keys (2 * M) 1 C (perm_arr (shuffleN_ind_out (2 * M)) C (2 * M) a)"
  unfolding merging_keys_def thr_perm_arr
proof
  fix v
  from assms(3) have "runs_sorted M N (thr v a)" unfolding runs_sorted_keys_def by blast
  then show "merging (2 * M) 1 C (perm_arr (shuffleN_ind_out (2 * M)) C (2 * M) (thr v a))"
    by (rule shuffle_step[OF assms(1,2)])
qed

lemma merge_step_keys:
  assumes "0 < q" "h = 2 * q" "K = 2 * h" "2 * 2 ^ lv = K * R" "N = K * C" "merging_keys K R C a"
  shows "merging_keys h (2 * R) (2 * C) (perm_arr (butterflyN_ind_out K) C K (cas_arr lv N a))"
  using assms unfolding merging_keys_def thr_perm_arr thr_cas_arr
  by (auto intro: merge_step)

lemma merging_keys_initial: "merging_keys 2 1 C a"
  unfolding merging_keys_def using merging_initial by blast

lemma runs_sorted_keys_le:
  assumes "runs_sorted_keys N N a" "i < i'" "i' < N"
  shows "a i \<le> a i'"
proof -
  from assms have "runs_sorted N N (thr (a i) a)" unfolding runs_sorted_keys_def by blast
  from runs_sortedD[OF this, of i i'] assms(2,3) show ?thesis
    by (simp add: ordered_def thr_def)
qed

lemma mem_launch_kernel:
  "st_mem (launch_kernel stage substage k run s) = run (st_mem s)"
  "st_level (launch_kernel stage substage k run s) = st_level s"
  by (simp_all add: launch_kernel_def)

lemma permute_phase_first:
  "buf_x (st_mem (permute_phase N dv stage 0 s)) =
     perm_arr (butterflyN_ind_out (N div dv)) dv (N div dv)
       (cas_arr (st_level s + 1) N
         (perm_arr (shuffleN_ind_out (N div dv)) dv (N div dv) (buf_x (st_mem s))))"
  "st_level (permute_phase N dv stage 0 s) = st_level s + 1"
  by (simp_all add: permute_phase_def Let_def mem_launch_kernel buf_x_butterflyN
      buf_x_compareAndSwap buf_x_shuffleN)

lemma permute_phase_later:
  assumes "substage \<noteq> 0"
  shows "buf_x (st_mem (permute_phase N dv stage substage s)) =
     perm_arr (butterflyN_ind_out (N div dv)) dv (N div dv) (cas_arr (st_level s) N (buf_x (st_mem s)))"
    and "st_level (permute_phase N dv stage substage s) = st_level s"
  using assms
  by (simp_all add: permute_phase_def Let_def mem_launch_kernel buf_x_butterflyN
      buf_x_compareAndSwap)

subsection \<open>The loops of \<^verbatim>\<open>benyan\<close>\<close>

text \<open>
  Invariant of the inner loop from substage 1 on, in a stage below the last: the level is
  \<open>stage + 1\<close> and the array is in a merge with chunks of size \<open>2^(stage + 2 - substage)\<close>.
\<close>

lemma substages_tail:
  assumes "N = 2 ^ n" "stage < n - 1" "1 \<le> t" "t \<le> Suc stage" "st_level s = Suc stage"
    "merging_keys (2 ^ (Suc (Suc stage) - t)) (2 ^ t) (2 ^ (n - Suc (Suc stage) + t)) (buf_x (st_mem s))"
  shows "st_level (benyan_substages N n stage t s) = Suc stage \<and>
         merging_keys 2 (2 ^ Suc stage) (2 ^ (n - 1)) (buf_x (st_mem (benyan_substages N n stage t s)))"
  using assms
proof (induction N n stage t s rule: benyan_substages.induct)
  case (1 N n stage t s)
  from "1.prems"(2) obtain m where n: "n = Suc (Suc stage) + m"
    by (metis less_diff_conv add.commute less_iff_Suc_add add_Suc_right plus_1_eq_Suc add_Suc)
  show ?case
  proof (cases "t \<le> stage")
    case False
    with "1.prems"(4) have t: "t = Suc stage" by simp
    have unf: "benyan_substages N n stage t s = s"
      using False by (subst benyan_substages.simps) simp
    have e1: "(2::nat) ^ (Suc (Suc stage) - t) = 2" unfolding t by simp
    have e2: "n - Suc (Suc stage) + t = n - 1" unfolding t n by simp
    from "1.prems"(6) have "merging_keys 2 (2 ^ Suc stage) (2 ^ (n - 1)) (buf_x (st_mem s))"
      unfolding e1 e2 unfolding t .
    with "1.prems"(5) show ?thesis unfolding unf by simp
  next
    case True
    then obtain e where stage: "stage = t + e" by (metis le_iff_add)
    let ?lv = "Suc stage"
    let ?s1 = "launch_kernel stage t (CmpA (st_level s)) (compareAndSwap (st_level s) N) s"
    let ?dv = "N div 2 ^ (2 + stage - t)"
    let ?s4 = "permute_phase N ?dv stage t ?s1"
    have unf: "benyan_substages N n stage t s = benyan_substages N n stage (t + 1) ?s4"
      using True "1.prems"(2) by (subst benyan_substages.simps) (simp add: Let_def)
    have t0: "t \<noteq> 0" using "1.prems"(3) by simp
    have Nprod: "N = 2 ^ (e + 2) * 2 ^ (m + t)"
      unfolding "1.prems"(1) n stage by (simp add: power_add)
    have ex: "2 + stage - t = e + 2" unfolding stage by simp
    have dv: "?dv = 2 ^ (m + t)"
      unfolding ex unfolding Nprod by (rule nonzero_mult_div_cancel_left) simp
    have sz: "N div ?dv = 2 ^ (e + 2)"
      unfolding dv unfolding Nprod by (rule nonzero_mult_div_cancel_right) simp
    have lv1: "st_level ?s1 = ?lv" using "1.prems"(5) by (simp add: mem_launch_kernel)
    have a1: "buf_x (st_mem ?s1) = cas_arr ?lv N (buf_x (st_mem s))"
      using "1.prems"(5) by (simp add: mem_launch_kernel buf_x_compareAndSwap)
    have a4: "buf_x (st_mem ?s4) =
        perm_arr (butterflyN_ind_out (2 ^ (e + 2))) (2 ^ (m + t)) (2 ^ (e + 2))
          (cas_arr ?lv N (buf_x (st_mem s)))"
      unfolding permute_phase_later(1)[OF t0] lv1 a1 cas_arr_idem sz unfolding dv ..
    have lv4: "st_level ?s4 = ?lv"
      unfolding permute_phase_later(2)[OF t0] lv1 ..
    have pre: "merging_keys (2 ^ (e + 2)) (2 ^ t) (2 ^ (m + t)) (buf_x (st_mem s))"
      using "1.prems"(6) unfolding n stage by simp
    have "merging_keys (2 ^ (e + 1)) (2 * 2 ^ t) (2 * 2 ^ (m + t)) (buf_x (st_mem ?s4))"
      unfolding a4
    proof (rule merge_step_keys[where q = "2 ^ e", OF _ _ _ _ _ pre])
      show "0 < (2::nat) ^ e" by simp
      show "(2::nat) ^ (e + 1) = 2 * 2 ^ e" by simp
      show "(2::nat) ^ (e + 2) = 2 * 2 ^ (e + 1)" by simp
      show "2 * 2 ^ Suc stage = (2::nat) ^ (e + 2) * 2 ^ t" unfolding stage by (simp add: power_add)
      show "N = 2 ^ (e + 2) * 2 ^ (m + t)" by (rule Nprod)
    qed
    then have post: "merging_keys (2 ^ (Suc (Suc stage) - (t + 1))) (2 ^ (t + 1))
        (2 ^ (n - Suc (Suc stage) + (t + 1))) (buf_x (st_mem ?s4))"
      unfolding n stage by simp
    have "st_level (benyan_substages N n stage (t + 1) ?s4) = Suc stage \<and>
         merging_keys 2 (2 ^ Suc stage) (2 ^ (n - 1))
           (buf_x (st_mem (benyan_substages N n stage (t + 1) ?s4)))"
      by (rule "1.IH"[OF True refl refl "1.prems"(2) "1.prems"(1) "1.prems"(2) _ _ lv4 post])
         (use True in simp_all)
    then show ?thesis unfolding unf .
  qed
qed

lemma substages_inner_stage:
  assumes N: "N = 2 ^ n" and st: "stage < n - 1" and lv: "st_level s = stage"
    and pre: "merging_keys 2 (2 ^ stage) (2 ^ (n - 1)) (buf_x (st_mem s))"
  shows "st_level (benyan_substages N n stage 0 s) = Suc stage \<and>
         merging_keys 2 (2 ^ Suc stage) (2 ^ (n - 1)) (buf_x (st_mem (benyan_substages N n stage 0 s)))"
proof -
  from st obtain m where n: "n = Suc (Suc stage) + m"
    by (metis less_diff_conv add.commute less_iff_Suc_add add_Suc_right plus_1_eq_Suc add_Suc)
  let ?s1 = "launch_kernel stage 0 (CmpA (st_level s)) (compareAndSwap (st_level s) N) s"
  let ?dv = "N div 2 ^ (2 + stage - 0)"
  let ?s4 = "permute_phase N ?dv stage 0 ?s1"
  let ?M = "(2::nat) ^ Suc stage"
  let ?C = "(2::nat) ^ m"
  have unf: "benyan_substages N n stage 0 s = benyan_substages N n stage (0 + 1) ?s4"
    using st by (subst benyan_substages.simps) (simp add: Let_def)
  have Nprod: "N = 2 ^ (stage + 2) * 2 ^ m"
    unfolding N n by (simp add: power_add)
  have dv: "?dv = ?C"
    unfolding diff_zero add.commute[of 2 stage] unfolding Nprod
    by (rule nonzero_mult_div_cancel_left) simp
  have sz: "N div ?dv = 2 * ?M"
  proof -
    have "N div ?C = 2 ^ (stage + 2)"
      unfolding Nprod by (rule nonzero_mult_div_cancel_right) simp
    then show ?thesis unfolding dv by simp
  qed
  have lv1: "st_level ?s1 = stage" using lv by (simp add: mem_launch_kernel)
  have a1: "buf_x (st_mem ?s1) = cas_arr stage N (buf_x (st_mem s))"
    using lv by (simp add: mem_launch_kernel buf_x_compareAndSwap)
  have N2: "N = 2 * 2 ^ (n - 1)" unfolding N n by simp
  have sorted1: "runs_sorted_keys (2 * 2 ^ stage) N (buf_x (st_mem ?s1))"
    unfolding a1 by (rule finish_step_keys[OF refl N2 pre])
  have N3: "N = 2 * ?M * ?C" unfolding Nprod by (simp add: power_add)
  have shuffled: "merging_keys (2 * ?M) 1 ?C
      (perm_arr (shuffleN_ind_out (2 * ?M)) ?C (2 * ?M) (buf_x (st_mem ?s1)))"
    by (rule shuffle_step_keys[OF _ N3]) (use sorted1 in simp_all)
  have a4: "buf_x (st_mem ?s4) =
      perm_arr (butterflyN_ind_out (2 * ?M)) ?C (2 * ?M)
        (cas_arr (Suc stage) N
          (perm_arr (shuffleN_ind_out (2 * ?M)) ?C (2 * ?M) (buf_x (st_mem ?s1))))"
    unfolding permute_phase_first(1) lv1 sz unfolding dv by simp
  have lv4: "st_level ?s4 = Suc stage"
    unfolding permute_phase_first(2) lv1 by simp
  have "merging_keys ?M (2 * 1) (2 * ?C) (buf_x (st_mem ?s4))"
    unfolding a4
  proof (rule merge_step_keys[where q = "2 ^ stage", OF _ _ _ _ _ shuffled])
    show "0 < (2::nat) ^ stage" by simp
    show "?M = 2 * 2 ^ stage" by simp
    show "2 * ?M = 2 * ?M" ..
    show "2 * 2 ^ Suc stage = 2 * ?M * 1" by simp
    show "N = 2 * ?M * ?C" by (rule N3)
  qed
  then have post: "merging_keys (2 ^ (Suc (Suc stage) - (0 + 1))) (2 ^ (0 + 1))
      (2 ^ (n - Suc (Suc stage) + (0 + 1))) (buf_x (st_mem ?s4))"
    unfolding n by simp
  show ?thesis
    unfolding unf
    by (rule substages_tail[OF N st _ _ lv4 post]) simp_all
qed

lemma substages_last_stage:
  assumes N: "N = 2 ^ n" and st: "stage < n" "\<not> stage < n - 1" and lv: "st_level s = stage"
    and pre: "merging_keys 2 (2 ^ stage) (2 ^ (n - 1)) (buf_x (st_mem s))"
  shows "runs_sorted_keys N N (buf_x (st_mem (benyan_substages N n stage 0 s)))"
proof -
  have n: "n = Suc stage" using st by simp
  let ?s1 = "launch_kernel stage 0 (CmpA (st_level s)) (compareAndSwap (st_level s) N) s"
  have unf: "benyan_substages N n stage 0 s = ?s1"
    using st(2) by (subst benyan_substages.simps) (simp add: Let_def)
  have a1: "buf_x (st_mem ?s1) = cas_arr stage N (buf_x (st_mem s))"
    using lv by (simp add: mem_launch_kernel buf_x_compareAndSwap)
  have N2: "N = 2 * 2 ^ (n - 1)" unfolding N n by simp
  have "runs_sorted_keys (2 * 2 ^ stage) N (buf_x (st_mem ?s1))"
    unfolding a1 by (rule finish_step_keys[OF refl N2 pre])
  then show ?thesis unfolding unf unfolding N n by simp
qed

lemma stages_sorted:
  assumes "N = 2 ^ n" "stage < n" "st_level s = stage"
    "merging_keys 2 (2 ^ stage) (2 ^ (n - 1)) (buf_x (st_mem s))"
  shows "runs_sorted_keys N N (buf_x (st_mem (benyan_stages N n stage s)))"
  using assms
proof (induction N n stage s rule: benyan_stages.induct)
  case (1 N n stage s)
  have unf: "benyan_stages N n stage s =
      benyan_stages N n (stage + 1) (benyan_substages N n stage 0 s)"
    using "1.prems"(2) by (subst benyan_stages.simps) simp
  show ?case
  proof (cases "stage < n - 1")
    case True
    from substages_inner_stage[OF "1.prems"(1) True "1.prems"(3,4)]
    have lv: "st_level (benyan_substages N n stage 0 s) = stage + 1"
      and m: "merging_keys 2 (2 ^ (stage + 1)) (2 ^ (n - 1))
                (buf_x (st_mem (benyan_substages N n stage 0 s)))"
      by simp_all
    have lt: "stage + 1 < n" using True by simp
    show ?thesis
      unfolding unf by (rule "1.IH"[OF "1.prems"(2) "1.prems"(1) lt lv m])
  next
    case False
    then have "\<not> stage + 1 < n" by simp
    then have stop: "benyan_stages N n (stage + 1) (benyan_substages N n stage 0 s) =
        benyan_substages N n stage 0 s"
      by (subst benyan_stages.simps) simp
    show ?thesis
      unfolding unf stop
      by (rule substages_last_stage[OF "1.prems"(1,2) False "1.prems"(3,4)])
  qed
qed

text \<open>
  The wiring of the network is right. In the store model, that is with the cells past
  the array present, every launch running and unbounded counters, the cells \<open>0 ..< N\<close>
  of \<^verbatim>\<open>x\<close> are in ascending order after \<^verbatim>\<open>benyan(x, y, comparators, N, n)\<close> with
  \<open>N = 2^n\<close>. This is a statement about the comparators \<open>0 ..< N/2\<close> and the permutations
  only; it does not hold of the source, whose compare launches also run the comparators
  \<open>N/2 ..< N\<close> and ask for blocks of \<open>compBlockNum N\<close> threads (see below).
\<close>

lemma network_sorts_in_store_model:
  "sorted (keys_of (2 ^ n) (st_mem (benyan d (2 ^ n) n)))"
proof (cases n)
  case 0
  then show ?thesis by (simp add: keys_of_def)
next
  case (Suc k)
  let ?s0 = "\<lparr>st_mem = d, st_level = 0, st_launches = []\<rparr>"
  have "merging_keys 2 1 (2 ^ (n - 1)) (buf_x (st_mem ?s0))"
    by (rule merging_keys_initial)
  then have "merging_keys 2 (2 ^ 0) (2 ^ (n - 1)) (buf_x (st_mem ?s0))"
    by (simp only: power_0)
  then have rs: "runs_sorted_keys (2 ^ n) (2 ^ n) (buf_x (st_mem (benyan d (2 ^ n) n)))"
    unfolding benyan_def
    by (intro stages_sorted) (simp_all add: Suc)
  show ?thesis
    unfolding keys_of_def sorted_iff_nth_mono_less
    using runs_sorted_keys_le[OF rs] by simp
qed

subsection \<open>The compare launches of \<^verbatim>\<open>benyan\<close> on the array it is given\<close>

text \<open>
  C1 fails on the code. Every compare launch of \<^verbatim>\<open>benyan\<close> over \<open>N\<close> keys runs the
  comparators \<open>0 ..< N\<close> and so reads and writes the cells \<open>N ..< 2N\<close>, past the array:
  for \<open>N = 4\<close> these are the cells 4 to 7, and with the keys 3, 1, 4, 1 in the array and
  5, 9, 2, 6 in the four cells behind it, \<^verbatim>\<open>benyan\<close> leaves 9, 5, 6, 2 in those four
  cells. And a block of the compare launch has \<open>compBlockNum N\<close> threads: for \<open>N = 2^20\<close>
  that is 2048, above the limit of 1024, while at \<open>N = 2^19\<close> it is exactly 1024.
\<close>

theorem benyan_compare_launch_defects:
  "past_the_end 4 (cas_accesses 4) = [4, 5, 6, 7] \<and>
   map (buf_x (st_mem (benyan (dev_of 0 [3, 1, 4, 1, 5, 9, 2, 6::nat]) 4 2))) [0, 1, 2, 3, 4, 5, 6, 7] =
     [1, 1, 3, 4, 9, 5, 6, 2] \<and>
   compBlockNum (2 ^ 19) = 1024 \<and>
   compBlockNum (2 ^ 20) = 2048 \<and>
   \<not> compBlockNum (2 ^ 20) \<le> max_threads_per_block"
proof -
  have cells: "past_the_end 4 (cas_accesses 4) = [4, 5, 6, 7] \<and>
      map (buf_x (st_mem (benyan (dev_of 0 [3, 1, 4, 1, 5, 9, 2, 6::nat]) 4 2)))
          [0, 1, 2, 3, 4, 5, 6, 7] = [1, 1, 3, 4, 9, 5, 6, 2]"
    by code_simp
  have blocks: "compBlockNum (2 ^ 19) = 1024 \<and> compBlockNum (2 ^ 20) = 2048"
    by (simp add: compBlockNum_def compThreadNum_def)
  from cells blocks show ?thesis by (simp add: max_threads_per_block_def)
qed

end
